theory Spec2Isabelle
  imports Complex_Main "HOL-Library.Sublist"
begin

chapter \<open>The model\<close>

section \<open>Strings\<close>

text \<open>
  Page bodies and URLs are byte strings. \<open>str.lower()\<close> is modelled on the ASCII
  letters, which is what it does on every pattern and test page of the repository.
\<close>

definition lower_char :: "char \<Rightarrow> char" where
  "lower_char c =
     (case map_of (zip ''ABCDEFGHIJKLMNOPQRSTUVWXYZ'' ''abcdefghijklmnopqrstuvwxyz'') c of
        None \<Rightarrow> c | Some d \<Rightarrow> d)"

definition lower :: "string \<Rightarrow> string" where
  "lower s = map lower_char s"

text \<open>\<open>contains s pat\<close> is Python's \<open>pat in s\<close> on strings.\<close>

fun contains :: "string \<Rightarrow> string \<Rightarrow> bool" where
  "contains [] pat = (pat = [])"
| "contains (c # cs) pat = (prefix pat (c # cs) \<or> contains cs pat)"

section \<open>The outside world of a fetch\<close>

text \<open>
  Exceptions are values. A fetch talks to a transport, sleeps and draws random numbers:
  the transport's answers and the draws of \<open>random()\<close> are given by the environment,
  indexed by how many were taken before; every request and every sleep is appended to a
  trace, so that their order can be read off afterwards.
\<close>

datatype py_error =
  ConnectionError | HTTPError int | ValueError | IndexError | TypeError | Blocked string
  | IntegrityError string

datatype response = Response (resp_status: int) (resp_text: string)

datatype event = Request string | Sleep real

record Stats =
  requests :: int
  successful :: int
  failed :: int
  captchas :: int
  blocks :: int

definition Stats0 :: Stats where
  "Stats0 = \<lparr>requests = 0, successful = 0, failed = 0, captchas = 0, blocks = 0\<rparr>"

record world =
  trace :: "event list"
  n_requests :: nat
  n_draws :: nat
  stats :: Stats

record env =
  transport :: "nat \<Rightarrow> string \<Rightarrow> py_error + response"
  random :: "nat \<Rightarrow> real"

definition world0 :: world where
  "world0 = \<lparr>trace = [], n_requests = 0, n_draws = 0, stats = Stats0\<rparr>"

definition requests_get :: "env \<Rightarrow> string \<Rightarrow> world \<Rightarrow> (py_error + response) \<times> world" where
  "requests_get ev url w =
     (transport ev (n_requests w) url,
      w\<lparr>trace := trace w @ [Request url], n_requests := Suc (n_requests w)\<rparr>)"

text \<open>
  \<open>random.uniform(a, b)\<close> is \<open>a + (b - a) * random()\<close>; the draws of
  \<open>random()\<close> lie in the unit interval.
\<close>

definition uniform :: "real \<Rightarrow> real \<Rightarrow> real \<Rightarrow> real" where
  "uniform a b r = a + (b - a) * r"

definition random_random :: "env \<Rightarrow> world \<Rightarrow> real \<times> world" where
  "random_random ev w = (random ev (n_draws w), w\<lparr>n_draws := Suc (n_draws w)\<rparr>)"

definition random_uniform :: "env \<Rightarrow> real \<Rightarrow> real \<Rightarrow> world \<Rightarrow> real \<times> world" where
  "random_uniform ev a b w = (let (r, w1) = random_random ev w in (uniform a b r, w1))"

definition bump :: "(Stats \<Rightarrow> Stats) \<Rightarrow> world \<Rightarrow> world" where
  "bump f w = w\<lparr>stats := f (stats w)\<rparr>"

text \<open>\<open>time.sleep\<close> raises \<open>ValueError\<close> on a negative duration.\<close>

definition time_sleep :: "real \<Rightarrow> world \<Rightarrow> py_error option \<times> world" where
  "time_sleep d w = (if d < 0 then (Some ValueError, w) else (None, w\<lparr>trace := trace w @ [Sleep d]\<rparr>))"

section \<open>\<open>fetch_with_retry\<close> of \<open>final_antibot_scraper.py\<close>\<close>

text \<open>
  \<open>is_blocked(status_code, html)\<close> of the script, with its own four indicators; it
  carries the prefix \<open>fas_\<close>, as \<open>src/antibot.py\<close> has an \<open>is_blocked\<close> too.
\<close>

definition block_indicators :: "string list" where
  "block_indicators = [''captcha'', ''blocked'', ''access denied'', ''unusual traffic'']"

definition fas_is_blocked :: "int \<Rightarrow> string \<Rightarrow> bool" where
  "fas_is_blocked status_code html =
     (if status_code \<in> {403, 429, 503} then True
      else list_ex (\<lambda>indicator. contains (lower html) indicator) block_indicators)"

text \<open>
  The two lines \<open>wait = (2 ** attempt) + random.uniform(0, 1); time.sleep(wait)\<close>,
  which the blocked branch and the exception handler share.
\<close>

definition backoff_sleep :: "env \<Rightarrow> int \<Rightarrow> world \<Rightarrow> py_error option \<times> world" where
  "backoff_sleep ev attempt w =
     (let (u, w1) = random_uniform ev 0 1 w;
          wait = 2 ^ nat attempt + u
      in time_sleep wait w1)"

text \<open>
  The loop \<open>for attempt in range(max_retries)\<close>. The result is the page text,
  \<open>None\<close> after a block or when the attempts are used up, or an exception that
  escapes the handler. \<open>raise_for_status\<close> raises for the codes 400 to 599. The choice
  of the User-Agent header does not influence the control flow and is left out.
\<close>

function fetch_attempts ::
  "env \<Rightarrow> string \<Rightarrow> int \<Rightarrow> int \<Rightarrow> world \<Rightarrow> (py_error + string option) \<times> world"
where
  "fetch_attempts ev url max_retries attempt w =
     (if attempt < max_retries then
        (let handler = (\<lambda>w1.
               let w2 = bump (\<lambda>s. s\<lparr>failed := failed s + 1\<rparr>) w1 in
               if attempt < max_retries - 1 then
                 (case backoff_sleep ev attempt w2 of
                    (Some e, w3) \<Rightarrow> (Inl e, w3)
                  | (None, w3) \<Rightarrow> fetch_attempts ev url max_retries (attempt + 1) w3)
               else fetch_attempts ev url max_retries (attempt + 1) w2)
         in case requests_get ev url w of
              (Inl e, w1) \<Rightarrow> handler w1
            | (Inr response, w1) \<Rightarrow>
                if fas_is_blocked (resp_status response) (resp_text response) then
                  (let w2 = bump (\<lambda>s. s\<lparr>blocks := blocks s + 1\<rparr>) w1 in
                   if attempt < max_retries - 1 then
                     (case backoff_sleep ev attempt w2 of
                        (Some e, w3) \<Rightarrow> handler w3
                      | (None, w3) \<Rightarrow> fetch_attempts ev url max_retries (attempt + 1) w3)
                   else (Inr None, w2))
                else if 400 \<le> resp_status response \<and> resp_status response < 600 then
                  handler w1
                else (Inr (Some (resp_text response)),
                      bump (\<lambda>s. s\<lparr>successful := successful s + 1\<rparr>) w1))
      else (Inr None, w))"
  by pat_completeness auto
termination
  by (relation "measure (\<lambda>(ev, url, max_retries, attempt, w). nat (max_retries - attempt))") auto

definition fetch_with_retry ::
  "env \<Rightarrow> string \<Rightarrow> int \<Rightarrow> world \<Rightarrow> (py_error + string option) \<times> world"
where
  "fetch_with_retry ev url max_retries w =
     fetch_attempts ev url max_retries 0 (bump (\<lambda>s. s\<lparr>requests := requests s + 1\<rparr>) w)"

section \<open>The pagination loop of \<open>main\<close> of \<open>final_antibot_scraper.py\<close>\<close>

text \<open>
  The loop of \<open>main\<close> uses three collaborators: \<open>fetch_page\<close>, which acts on the
  outside world \<open>'w\<close> and returns the page or \<open>None\<close>, and the two HTML readers
  \<open>parse_quotes\<close> and \<open>get_next_page\<close>. They and the constant \<open>MAX_PAGES\<close> are
  the fields of a record, so that the loop can be run against any of them.
\<close>

record ('w, 'q) scraper =
  fetch_page :: "'w \<Rightarrow> string \<Rightarrow> string option \<times> 'w"
  parse_quotes :: "string \<Rightarrow> 'q list"
  get_next_page :: "string \<Rightarrow> string option"
  MAX_PAGES :: int

definition BASE_URL :: string where
  "BASE_URL = ''https://quotes.toscrape.com''"

text \<open>
  The \<open>while\<close> loop of \<open>final_antibot_scraper.main\<close>, from the state
  \<open>(all_quotes, current_url, page_number)\<close>. An empty string is false in
  \<open>while current_url\<close> and in \<open>if next_page\<close>.
\<close>

function paginate ::
  "('w, 'q) scraper \<Rightarrow> 'w \<Rightarrow> 'q list \<Rightarrow> string \<Rightarrow> int \<Rightarrow> 'q list \<times> 'w"
where
  "paginate sc w all_quotes current_url page_number =
     (if current_url \<noteq> [] \<and> page_number \<le> MAX_PAGES sc then
        (case fetch_page sc w current_url of
           (None, w1) \<Rightarrow> (all_quotes, w1)
         | (Some html, w1) \<Rightarrow>
             (let quotes = parse_quotes sc html;
                  all_quotes1 = all_quotes @ quotes
              in case get_next_page sc html of
                   None \<Rightarrow> (all_quotes1, w1)
                 | Some next_page \<Rightarrow>
                     if next_page \<noteq> []
                     then paginate sc w1 all_quotes1 (BASE_URL @ next_page) (page_number + 1)
                     else (all_quotes1, w1)))
      else (all_quotes, w))"
  by pat_completeness auto
termination
  by (relation "measure (\<lambda>(sc, w, all_quotes, current_url, page_number).
        nat (MAX_PAGES sc + 1 - page_number))") auto

text \<open>
  \<open>main\<close>: the loop from the first page, then the save. The second component of the
  result is the list handed to \<open>save_to_csv\<close> and \<open>save_to_json\<close>, or \<open>None\<close>
  when nothing is saved.
\<close>

definition main :: "('w, 'q) scraper \<Rightarrow> 'w \<Rightarrow> 'q list \<times> 'q list option \<times> 'w" where
  "main sc w =
     (let (all_quotes, w1) = paginate sc w [] BASE_URL 1
      in (all_quotes, (if all_quotes \<noteq> [] then Some all_quotes else None), w1))"

text \<open>
  A scripted fetcher: its world is the list of the URLs fetched so far, and its answer
  to the \<open>k\<close>-th fetch is \<open>script k url\<close>.
\<close>

definition scripted :: "(nat \<Rightarrow> string \<Rightarrow> string option) \<Rightarrow> string list \<Rightarrow> string \<Rightarrow> string option \<times> string list" where
  "scripted script fetched url = (script (length fetched) url, fetched @ [url])"

section \<open>\<open>do_request\<close> and the loop of \<open>main\<close> of \<open>advanced_scraper.py\<close>\<close>

text \<open>
  The script's own \<open>CaptchaDetector.is_blocked\<close> and \<open>get_reason\<close>; the first
  carries the prefix \<open>adv_\<close>, as \<open>src/antibot.py\<close> has an \<open>is_blocked\<close> too.
\<close>

definition INDICATORS :: "string list" where
  "INDICATORS =
     [''captcha'', ''recaptcha'', ''hcaptcha'', ''verify you are human'', ''access denied'',
      ''blocked'', ''unusual traffic'', ''cloudflare'']"

definition adv_is_blocked :: "int \<Rightarrow> string option \<Rightarrow> bool" where
  "adv_is_blocked status_code html =
     (if status_code \<in> {403, 429, 503} then True
      else (case html of None \<Rightarrow> False
            | Some h \<Rightarrow> h \<noteq> [] \<and> list_ex (\<lambda>indicator. contains (lower h) indicator) INDICATORS))"

definition get_reason :: "int \<Rightarrow> string" where
  "get_reason status_code =
     (if status_code = 403 then ''Access Forbidden''
      else if status_code = 429 then ''Rate Limited''
      else if status_code = 503 then ''Service Unavailable''
      else ''Unknown'')"

text \<open>
  The closure that \<open>fetch_page\<close> hands to the retry handler: one request, then
  \<open>raise_for_status\<close>, then the block check, which counts a block and raises.
\<close>

definition do_request :: "env \<Rightarrow> string \<Rightarrow> world \<Rightarrow> (py_error + string) \<times> world" where
  "do_request ev url w =
     (case requests_get ev url w of
        (Inl e, w1) \<Rightarrow> (Inl e, w1)
      | (Inr response, w1) \<Rightarrow>
          if 400 \<le> resp_status response \<and> resp_status response < 600
          then (Inl (HTTPError (resp_status response)), w1)
          else if adv_is_blocked (resp_status response) (Some (resp_text response))
          then (Inl (Blocked (get_reason (resp_status response))),
                bump (\<lambda>s. s\<lparr>blocks := blocks s + 1\<rparr>) w1)
          else (Inr (resp_text response), w1))"

text \<open>
  The loop of \<open>advanced_scraper.main\<close> also stops, adding one to its CAPTCHA
  counter, when the fetched page looks blocked.
\<close>

function adv_paginate ::
  "('w, 'q) scraper \<Rightarrow> 'w \<Rightarrow> int \<Rightarrow> 'q list \<Rightarrow> string \<Rightarrow> int \<Rightarrow> 'q list \<times> int \<times> 'w"
where
  "adv_paginate sc w stats_captchas all_quotes current_url page_number =
     (if current_url \<noteq> [] \<and> page_number \<le> MAX_PAGES sc then
        (case fetch_page sc w current_url of
           (None, w1) \<Rightarrow> (all_quotes, stats_captchas, w1)
         | (Some html, w1) \<Rightarrow>
             if adv_is_blocked 200 (Some html) then (all_quotes, stats_captchas + 1, w1)
             else
               (let quotes = parse_quotes sc html;
                    all_quotes1 = all_quotes @ quotes
                in case get_next_page sc html of
                     None \<Rightarrow> (all_quotes1, stats_captchas, w1)
                   | Some next_page \<Rightarrow>
                       if next_page \<noteq> []
                       then adv_paginate sc w1 stats_captchas all_quotes1 (BASE_URL @ next_page)
                              (page_number + 1)
                       else (all_quotes1, stats_captchas, w1)))
      else (all_quotes, stats_captchas, w))"
  by pat_completeness auto
termination
  by (relation "measure (\<lambda>(sc, w, stats_captchas, all_quotes, current_url, page_number).
        nat (MAX_PAGES sc + 1 - page_number))") auto

definition adv_main :: "('w, 'q) scraper \<Rightarrow> 'w \<Rightarrow> 'q list \<times> 'q list option \<times> int \<times> 'w" where
  "adv_main sc w =
     (let (all_quotes, stats_captchas, w1) = adv_paginate sc w 0 [] BASE_URL 1
      in (all_quotes, (if all_quotes \<noteq> [] then Some all_quotes else None), stats_captchas, w1))"

section \<open>\<open>RequestThrottler\<close> of \<open>src/antibot.py\<close> and \<open>advanced_scraper.py\<close>\<close>

text \<open>
  Timestamps are real numbers of seconds on the clock that \<open>datetime.now()\<close> reads.
  The fields \<open>min_delay\<close> and \<open>max_delay\<close> carry the prefix \<open>th_\<close>, since
  \<open>RetryHandler\<close> has a \<open>max_delay\<close> of its own.
\<close>

record RequestThrottler =
  th_min_delay :: real
  th_max_delay :: real
  requests_per_minute :: int
  request_times :: "real list"
  consecutive_errors :: int

definition RequestThrottler_init :: "real \<Rightarrow> real \<Rightarrow> int \<Rightarrow> RequestThrottler" where
  "RequestThrottler_init mn mx rpm =
     \<lparr>th_min_delay = mn, th_max_delay = mx, requests_per_minute = rpm, request_times = [],
      consecutive_errors = 0\<rparr>"

text \<open>
  What the environment contributes to one call of \<open>wait\<close>: the time that passes before
  the first reading of the clock, between the first and the second reading, the time by which
  each of the two sleeps overruns (the second up to the last reading of the clock), and the
  draw of \<open>random()\<close>.
\<close>

record tick =
  gap0 :: real
  gap1 :: real
  over1 :: real
  draw :: real
  over2 :: real

definition tick_ok :: "tick \<Rightarrow> bool" where
  "tick_ok tk = (0 \<le> gap0 tk \<and> 0 \<le> gap1 tk \<and> 0 \<le> over1 tk \<and> 0 \<le> over2 tk)"

text \<open>
  The second half of \<open>wait\<close>: the randomized delay, scaled by the error multiplier, and the
  recording of the request time. \<open>time.sleep\<close> raises \<open>ValueError\<close> on a negative
  delay, and then nothing is recorded.
\<close>

definition wait_delay ::
  "tick \<Rightarrow> real \<Rightarrow> RequestThrottler \<Rightarrow> py_error option \<times> real \<times> RequestThrottler" where
  "wait_delay tk clock th =
     (let base_delay = uniform (th_min_delay th) (th_max_delay th) (draw tk);
          error_multiplier = 1 + real_of_int (consecutive_errors th) * 0.5;
          actual_delay = base_delay * error_multiplier
      in if actual_delay < 0 then (Some ValueError, clock, th)
         else (let now2 = clock + actual_delay + over2 tk
               in (None, now2, th\<lparr>request_times := request_times th @ [now2]\<rparr>)))"

text \<open>
  \<open>wait\<close>, on the clock and the throttler. \<open>self.request_times[0]\<close> raises
  \<open>IndexError\<close> on an empty list; the list has been replaced by the filtered one then.
\<close>

definition wait :: "tick \<Rightarrow> real \<times> RequestThrottler \<Rightarrow> py_error option \<times> real \<times> RequestThrottler" where
  "wait tk s =
     (let (clock, th) = s;
          now0 = clock + gap0 tk;
          cutoff = now0 - 60;
          th1 = th\<lparr>request_times := filter (\<lambda>t. t > cutoff) (request_times th)\<rparr>
      in if int (length (request_times th1)) \<ge> requests_per_minute th1 then
           (case request_times th1 of
              [] \<Rightarrow> (Some IndexError, now0, th1)
            | oldest # _ \<Rightarrow>
                (let now1 = now0 + gap1 tk;
                     wait_time = 60 - (now1 - oldest)
                 in if wait_time > 0 then wait_delay tk (now1 + wait_time + over1 tk) th1
                    else wait_delay tk now1 th1))
         else wait_delay tk now0 th1)"

definition record_success :: "RequestThrottler \<Rightarrow> RequestThrottler" where
  "record_success th = th\<lparr>consecutive_errors := 0\<rparr>"

definition record_error :: "RequestThrottler \<Rightarrow> RequestThrottler" where
  "record_error th = th\<lparr>consecutive_errors := consecutive_errors th + 1\<rparr>"

text \<open>
  A caller's sequence of calls. An exception of \<open>wait\<close> leaves the throttler as it was
  at the raise, and the caller may go on calling.
\<close>

datatype call = Wait tick | RecordSuccess | RecordError

fun call_ok :: "call \<Rightarrow> bool" where
  "call_ok (Wait tk) = tick_ok tk"
| "call_ok RecordSuccess = True"
| "call_ok RecordError = True"

fun step :: "call \<Rightarrow> real \<times> RequestThrottler \<Rightarrow> real \<times> RequestThrottler" where
  "step (Wait tk) s = snd (wait tk s)"
| "step RecordSuccess (clock, th) = (clock, record_success th)"
| "step RecordError (clock, th) = (clock, record_error th)"

fun run :: "call list \<Rightarrow> real \<times> RequestThrottler \<Rightarrow> real \<times> RequestThrottler" where
  "run [] s = s"
| "run (c # cs) s = run cs (step c s)"

text \<open>The recorded timestamps in the 60 seconds up to \<open>T\<close>, counted as \<open>wait\<close> counts.\<close>

definition in_window :: "real \<Rightarrow> real list \<Rightarrow> real list" where
  "in_window T ts = filter (\<lambda>t. t > T - 60 \<and> t \<le> T) ts"

text \<open>
  What every call keeps true of the clock and the throttler, for a cap \<open>N\<close>: no
  recorded time lies in the future, and no window holds more than \<open>N\<close> of them.
\<close>

definition throttle_inv :: "int \<Rightarrow> real \<times> RequestThrottler \<Rightarrow> bool" where
  "throttle_inv N s \<longleftrightarrow>
     requests_per_minute (snd s) = N
     \<and> (\<forall>t \<in> set (request_times (snd s)). t \<le> fst s)
     \<and> (\<forall>T. int (length (in_window T (request_times (snd s)))) \<le> N)"

section \<open>Retry policy: \<open>RetryHandler\<close> of \<open>src/antibot.py\<close>\<close>

text \<open>
  The handler's four constructor arguments. Python's \<open>float\<close> fields are read as exact
  real numbers of seconds; \<open>max_retries\<close> and attempt numbers are Python integers.
\<close>

record RetryHandler =
  max_retries :: int
  base_delay :: real
  max_delay :: real
  exponential_base :: real

text \<open>The default arguments of \<open>RetryHandler.__init__\<close>.\<close>

definition RetryHandler_default :: RetryHandler where
  "RetryHandler_default =
     \<lparr>max_retries = 3, base_delay = 1, max_delay = 60, exponential_base = 2\<rparr>"

text \<open>
  \<open>get_delay\<close>: exponential backoff, jitter of a quarter of the delay in either
  direction, then the cap. The attempt number is not negative; \<open>r\<close> is the draw of
  \<open>random()\<close> behind \<open>random.uniform(-1, 1)\<close>.
\<close>

definition get_delay :: "RetryHandler \<Rightarrow> nat \<Rightarrow> real \<Rightarrow> real" where
  "get_delay rh attempt r =
     (let delay = base_delay rh * exponential_base rh ^ attempt;
          jitter = delay * 0.25 * uniform (- 1) 1 r;
          delay = delay + jitter
      in min delay (max_delay rh))"

text \<open>
  The status code of \<open>should_retry\<close> defaults to \<open>None\<close>. The test
  \<open>if status_code and ...\<close> is false for \<open>None\<close> and for \<open>0\<close>.
\<close>

definition retryable_codes :: "int set" where
  "retryable_codes = {408, 429, 500, 502, 503, 504}"

definition truthy_code :: "int option \<Rightarrow> bool" where
  "truthy_code status_code = (case status_code of None \<Rightarrow> False | Some c \<Rightarrow> c \<noteq> 0)"

definition should_retry :: "RetryHandler \<Rightarrow> int \<Rightarrow> int option \<Rightarrow> bool" where
  "should_retry rh attempt status_code =
     (if attempt \<ge> max_retries rh then False
      else if truthy_code status_code \<and> the status_code \<in> retryable_codes then True
      else if truthy_code status_code \<and> 400 \<le> the status_code \<and> the status_code < 500
                \<and> the status_code \<noteq> 429 then False
      else True)"

text \<open>
  The loop \<open>for attempt in range(self.max_retries + 1)\<close> around a call of
  \<open>func\<close>, which acts on the world and returns or raises. After the loop the last
  exception is raised; with no attempt made that is \<open>raise None\<close>, a
  \<open>TypeError\<close>. An exception of \<open>time.sleep\<close> inside the handler escapes.
\<close>

function execute_attempts ::
  "RetryHandler \<Rightarrow> env \<Rightarrow> (world \<Rightarrow> (py_error + 'a) \<times> world) \<Rightarrow> int \<Rightarrow> py_error option
     \<Rightarrow> world \<Rightarrow> (py_error + 'a) \<times> world"
where
  "execute_attempts rh ev func attempt last_exception w =
     (if attempt < max_retries rh + 1 then
        (case func w of
           (Inr result, w1) \<Rightarrow> (Inr result, w1)
         | (Inl e, w1) \<Rightarrow>
             if attempt < max_retries rh then
               (let (r, w2) = random_random ev w1;
                    delay = get_delay rh (nat attempt) r
                in case time_sleep delay w2 of
                     (Some e', w3) \<Rightarrow> (Inl e', w3)
                   | (None, w3) \<Rightarrow> execute_attempts rh ev func (attempt + 1) (Some e) w3)
             else execute_attempts rh ev func (attempt + 1) (Some e) w1)
      else (case last_exception of None \<Rightarrow> (Inl TypeError, w) | Some e \<Rightarrow> (Inl e, w)))"
  by pat_completeness auto
termination
  by (relation "measure (\<lambda>(rh, ev, func, attempt, last_exception, w). nat (max_retries rh + 1 - attempt))")
    auto

definition execute_with_retry ::
  "RetryHandler \<Rightarrow> env \<Rightarrow> (world \<Rightarrow> (py_error + 'a) \<times> world) \<Rightarrow> world \<Rightarrow> (py_error + 'a) \<times> world"
where
  "execute_with_retry rh ev func w = execute_attempts rh ev func 0 None w"

section \<open>Block and CAPTCHA detection: \<open>CaptchaDetector\<close> of \<open>src/antibot.py\<close>\<close>









definition hello_page :: string where
  "hello_page = ''<html>hello</html>''"

section \<open>\<open>ProxyConfig\<close> and \<open>ProxyRotator\<close> of \<open>src/antibot.py\<close>\<close>

record ProxyConfig =
  host :: string
  port :: int
  username :: "string option"
  password :: "string option"
  protocol :: string

text \<open>\<open>str\<close> of an integer, as an f-string prints the port.\<close>

definition digit_char :: "nat \<Rightarrow> char" where
  "digit_char d = ''0123456789'' ! d"

function str_nat :: "nat \<Rightarrow> string" where
  "str_nat n = (if n < 10 then [digit_char n] else str_nat (n div 10) @ [digit_char (n mod 10)])"
  by pat_completeness auto
termination
  by (relation "measure id") auto

definition str_int :: "int \<Rightarrow> string" where
  "str_int i = (if i < 0 then ''-'' @ str_nat (nat (- i)) else str_nat (nat i))"

text \<open>An absent or empty string is false in \<open>if self.username and self.password\<close>.\<close>

definition truthy_str :: "string option \<Rightarrow> bool" where
  "truthy_str s = (case s of None \<Rightarrow> False | Some x \<Rightarrow> x \<noteq> [])"

text \<open>\<open>to_dict\<close>; a dictionary with string keys is an association list.\<close>

definition to_dict :: "ProxyConfig \<Rightarrow> (string \<times> string) list" where
  "to_dict p =
     (let proxy_url =
            (if truthy_str (username p) \<and> truthy_str (password p)
             then protocol p @ ''://'' @ the (username p) @ '':'' @ the (password p) @ ''@''
                    @ host p @ '':'' @ str_int (port p)
             else protocol p @ ''://'' @ host p @ '':'' @ str_int (port p))
      in [(''http'', proxy_url), (''https'', proxy_url)])"

text \<open>The key \<open>f"{proxy.host}:{proxy.port}"\<close> under which a proxy is looked up.\<close>

definition proxy_key :: "ProxyConfig \<Rightarrow> string" where
  "proxy_key p = host p @ '':'' @ str_int (port p)"




text \<open>The counters of one proxy in \<open>proxy_stats\<close>.\<close>

record proxy_stat =
  success :: int
  failure :: int

record ProxyRotator =
  proxies :: "ProxyConfig list"
  current_index :: nat
  failed_proxies :: "string set"
  proxy_stats :: "string \<Rightarrow> proxy_stat option"



text \<open>
  \<open>get_random\<close>; \<open>k\<close> is the index that \<open>random.choice\<close> draws below the number of
  available proxies.
\<close>

definition get_random :: "nat \<Rightarrow> ProxyRotator \<Rightarrow> (string \<times> string) list option" where
  "get_random k r =
     (let available = filter (\<lambda>p. proxy_key p \<notin> failed_proxies r) (proxies r)
      in if available = [] then None else Some (to_dict (available ! (k mod length available))))"










section \<open>The quote database: \<open>src/database.py\<close>\<close>

text \<open>
  The tables that \<open>insert_quote\<close> touches, with the columns it writes. A table is the
  list of its rows in insertion order; beside each table with an \<open>AUTOINCREMENT\<close> key
  stands the largest key ever given out, as SQLite keeps it. The timestamp columns, which
  the database fills in by default, are left out.
\<close>

record quote_row =
  quote_id :: nat
  quote_text :: string
  author_id :: nat
  source_url :: "string option"

record db =
  authors :: "(nat \<times> string) list"
  authors_seq :: nat
  quotes :: "quote_row list"
  quotes_seq :: nat
  tags :: "(nat \<times> string) list"
  tags_seq :: nat
  quote_tags :: "(nat \<times> nat) list"

text \<open>The database after \<open>init_database\<close> on a new file.\<close>

definition db_empty :: db where
  "db_empty = \<lparr>authors = [], authors_seq = 0, quotes = [], quotes_seq = 0, tags = [],
                tags_seq = 0, quote_tags = []\<rparr>"

text \<open>
  A connection holds the committed state of the file and the state that its own
  statements see. \<open>commit\<close> makes the second the first, \<open>rollback\<close> the first the
  second, and closing leaves the committed state in the file.
\<close>

record conn =
  committed :: db
  working :: db

definition get_connection :: "db \<Rightarrow> conn" where
  "get_connection file = \<lparr>committed = file, working = file\<rparr>"

definition commit :: "conn \<Rightarrow> conn" where
  "commit c = c\<lparr>committed := working c\<rparr>"

definition rollback :: "conn \<Rightarrow> conn" where
  "rollback c = c\<lparr>working := committed c\<rparr>"

definition close :: "conn \<Rightarrow> db" where
  "close c = committed c"

text \<open>
  The statements. A parameter is a string or \<open>None\<close>, which SQLite takes as
  \<open>NULL\<close>: no row compares equal to it, and a \<open>NOT NULL\<close> column refuses it with
  an \<open>IntegrityError\<close>, as a \<open>UNIQUE\<close> column refuses a value it already holds.
  A failed statement changes nothing. A select returns the key of the first matching row.
\<close>

definition next_rowid :: "nat \<Rightarrow> nat list \<Rightarrow> nat" where
  "next_rowid seq ids = Suc (foldr max ids seq)"

definition select_quote :: "string option \<Rightarrow> db \<Rightarrow> nat option" where
  "select_quote txt d =
     (case txt of None \<Rightarrow> None
      | Some t \<Rightarrow> (case filter (\<lambda>row. quote_text row = t) (quotes d) of
                    [] \<Rightarrow> None | row # _ \<Rightarrow> Some (quote_id row)))"

definition select_by_name :: "string option \<Rightarrow> (nat \<times> string) list \<Rightarrow> nat option" where
  "select_by_name name rows =
     (case name of None \<Rightarrow> None
      | Some n \<Rightarrow> (case filter (\<lambda>row. snd row = n) rows of [] \<Rightarrow> None | row # _ \<Rightarrow> Some (fst row)))"

definition insert_author :: "string option \<Rightarrow> db \<Rightarrow> py_error + nat \<times> db" where
  "insert_author name d =
     (case name of
        None \<Rightarrow> Inl (IntegrityError ''NOT NULL constraint failed: authors.name'')
      | Some n \<Rightarrow>
          if n \<in> snd ` set (authors d)
          then Inl (IntegrityError ''UNIQUE constraint failed: authors.name'')
          else (let i = next_rowid (authors_seq d) (map fst (authors d))
                in Inr (i, d\<lparr>authors := authors d @ [(i, n)], authors_seq := i\<rparr>)))"

definition insert_tag :: "string option \<Rightarrow> db \<Rightarrow> py_error + nat \<times> db" where
  "insert_tag name d =
     (case name of
        None \<Rightarrow> Inl (IntegrityError ''NOT NULL constraint failed: tags.name'')
      | Some n \<Rightarrow>
          if n \<in> snd ` set (tags d)
          then Inl (IntegrityError ''UNIQUE constraint failed: tags.name'')
          else (let i = next_rowid (tags_seq d) (map fst (tags d))
                in Inr (i, d\<lparr>tags := tags d @ [(i, n)], tags_seq := i\<rparr>)))"

definition insert_quote_row :: "string option \<Rightarrow> nat \<Rightarrow> string option \<Rightarrow> db \<Rightarrow> py_error + nat \<times> db" where
  "insert_quote_row txt aid url d =
     (case txt of
        None \<Rightarrow> Inl (IntegrityError ''NOT NULL constraint failed: quotes.text'')
      | Some t \<Rightarrow>
          if t \<in> quote_text ` set (quotes d)
          then Inl (IntegrityError ''UNIQUE constraint failed: quotes.text'')
          else (let i = next_rowid (quotes_seq d) (map quote_id (quotes d))
                in Inr (i, d\<lparr>quotes := quotes d @
                                 [\<lparr>quote_id = i, quote_text = t, author_id = aid, source_url = url\<rparr>],
                             quotes_seq := i\<rparr>)))"

definition insert_or_ignore_quote_tag :: "nat \<Rightarrow> nat \<Rightarrow> db \<Rightarrow> db" where
  "insert_or_ignore_quote_tag qid tid d =
     (if (qid, tid) \<in> set (quote_tags d) then d else d\<lparr>quote_tags := quote_tags d @ [(qid, tid)]\<rparr>)"

text \<open>The loop \<open>for tag_name in tags\<close>, on the state the connection's statements see.\<close>

fun add_tags :: "nat \<Rightarrow> string option list \<Rightarrow> db \<Rightarrow> py_error option \<times> db" where
  "add_tags qid [] d = (None, d)"
| "add_tags qid (tag_name # rest) d =
     (case select_by_name tag_name (tags d) of
        Some tag_id \<Rightarrow> add_tags qid rest (insert_or_ignore_quote_tag qid tag_id d)
      | None \<Rightarrow>
          (case insert_tag tag_name d of
             Inl e \<Rightarrow> (Some e, d)
           | Inr (tag_id, d1) \<Rightarrow> add_tags qid rest (insert_or_ignore_quote_tag qid tag_id d1)))"

text \<open>
  The \<open>try\<close> block of \<open>insert_quote\<close>: the result or the exception, and the connection
  as the block leaves it.
\<close>

definition insert_quote_try ::
  "string option \<Rightarrow> string option \<Rightarrow> string option list \<Rightarrow> string option \<Rightarrow> conn
     \<Rightarrow> (py_error + nat option) \<times> conn" where
  "insert_quote_try txt author tag_list url c =
     (case select_quote txt (working c) of
        Some _ \<Rightarrow> (Inr None, c)
      | None \<Rightarrow>
          (case (case select_by_name author (authors (working c)) of
                   Some aid \<Rightarrow> Inr (aid, working c)
                 | None \<Rightarrow> insert_author author (working c)) of
             Inl e \<Rightarrow> (Inl e, c)
           | Inr (aid, d1) \<Rightarrow>
               (case insert_quote_row txt aid url d1 of
                  Inl e \<Rightarrow> (Inl e, c\<lparr>working := d1\<rparr>)
                | Inr (qid, d2) \<Rightarrow>
                    (case add_tags qid tag_list d2 of
                       (Some e, d3) \<Rightarrow> (Inl e, c\<lparr>working := d3\<rparr>)
                     | (None, d3) \<Rightarrow> (Inr (Some qid), commit (c\<lparr>working := d3\<rparr>))))))"

text \<open>
  \<open>insert_quote\<close>, from the database file to the result and the file afterwards: the
  handler rolls back and raises again, and \<open>finally\<close> closes the connection.
\<close>

definition insert_quote ::
  "string option \<Rightarrow> string option \<Rightarrow> string option list \<Rightarrow> string option \<Rightarrow> db
     \<Rightarrow> (py_error + nat option) \<times> db" where
  "insert_quote txt author tag_list url file =
     (case insert_quote_try txt author tag_list url (get_connection file) of
        (Inr res, c) \<Rightarrow> (Inr res, close c)
      | (Inl e, c) \<Rightarrow> (Inl e, close (rollback c)))"

text \<open>
  \<open>insert_quotes_batch\<close>. An item is a dictionary with the keys \<open>text\<close> and
  \<open>author\<close> and perhaps \<open>tags\<close>. \<open>if result\<close> is false for \<open>None\<close> and for 0. An
  exception of \<open>insert_quote\<close> ends the batch; what earlier items committed stays.
\<close>

record quote_item =
  item_text :: "string option"
  item_author :: "string option"
  item_tags :: "string option list option"

record batch_count =
  added :: int
  skipped :: int

fun insert_quotes_loop ::
  "quote_item list \<Rightarrow> string option \<Rightarrow> batch_count \<Rightarrow> db \<Rightarrow> (py_error + batch_count) \<times> db" where
  "insert_quotes_loop [] url cnt d = (Inr cnt, d)"
| "insert_quotes_loop (quote # rest) url cnt d =
     (case insert_quote (item_text quote) (item_author quote)
             (case item_tags quote of None \<Rightarrow> [] | Some ts \<Rightarrow> ts) url d of
        (Inl e, d1) \<Rightarrow> (Inl e, d1)
      | (Inr result, d1) \<Rightarrow>
          if (case result of None \<Rightarrow> False | Some i \<Rightarrow> i \<noteq> 0)
          then insert_quotes_loop rest url (cnt\<lparr>added := added cnt + 1\<rparr>) d1
          else insert_quotes_loop rest url (cnt\<lparr>skipped := skipped cnt + 1\<rparr>) d1)"

definition insert_quotes_batch ::
  "quote_item list \<Rightarrow> string option \<Rightarrow> db \<Rightarrow> (py_error + batch_count) \<times> db" where
  "insert_quotes_batch items url d = insert_quotes_loop items url \<lparr>added = 0, skipped = 0\<rparr> d"

section \<open>Scripted collaborators for concrete runs\<close>

text \<open>
  A transport that answers 503 twice and then 200 with an ordinary page, with every draw of
  \<open>random()\<close> at one half.
\<close>

definition script_503_503_200 :: env where
  "script_503_503_200 =
     \<lparr>transport = (\<lambda>k url. if k < 2 then Inr (Response 503 []) else Inr (Response 200 hello_page)),
      random = (\<lambda>k. 1 / 2)\<rparr>"

text \<open>
  Three sites for the pagination loops. Each page yields three items. The first site has
  three pages, the last without a next link; the second always has a next link and a cap of
  two pages; the third always has a next link, and its third fetch fails.
\<close>

definition page_items :: "string \<Rightarrow> string list" where
  "page_items html = [html @ ''-a'', html @ ''-b'', html @ ''-c'']"

definition three_page_script :: "nat \<Rightarrow> string \<Rightarrow> string option" where
  "three_page_script k url =
     (if k = 0 then Some ''page1'' else if k = 1 then Some ''page2''
      else if k = 2 then Some ''page3'' else None)"

definition three_page_next :: "string \<Rightarrow> string option" where
  "three_page_next html =
     (if html = ''page1'' then Some ''/page/2/''
      else if html = ''page2'' then Some ''/page/3/'' else None)"

definition three_page_site :: "(string list, string) scraper" where
  "three_page_site =
     \<lparr>fetch_page = scripted three_page_script, parse_quotes = page_items,
      get_next_page = three_page_next, MAX_PAGES = 5\<rparr>"

definition endless_site :: "(string list, string) scraper" where
  "endless_site =
     \<lparr>fetch_page = scripted (\<lambda>k url. Some ''page''), parse_quotes = page_items,
      get_next_page = (\<lambda>html. Some ''/next''), MAX_PAGES = 2\<rparr>"

definition failing_script :: "nat \<Rightarrow> string \<Rightarrow> string option" where
  "failing_script k url = (if k < 2 then Some ''page'' else None)"

definition failing_site :: "(string list, string) scraper" where
  "failing_site =
     \<lparr>fetch_page = scripted failing_script, parse_quotes = page_items,
      get_next_page = (\<lambda>html. Some ''/next''), MAX_PAGES = 5\<rparr>"

text \<open>A call of \<open>wait\<close> in which no time passes beyond the sleeps, and a proxy.\<close>

definition tick0 :: tick where
  "tick0 = \<lparr>gap0 = 0, gap1 = 0, over1 = 0, draw = 0, over2 = 0\<rparr>"


text \<open>An item of a batch, and the database that holds it alone.\<close>

definition stay_hungry :: quote_item where
  "stay_hungry =
     \<lparr>item_text = Some ''Stay hungry, stay foolish.'', item_author = Some ''Steve Jobs'',
      item_tags = Some [Some ''inspiration'', Some ''life'']\<rparr>"

definition db_one_quote :: db where
  "db_one_quote =
     \<lparr>authors = [(1, ''Steve Jobs'')], authors_seq = 1,
      quotes = [\<lparr>quote_id = 1, quote_text = ''Stay hungry, stay foolish.'', author_id = 1,
                 source_url = None\<rparr>],
      quotes_seq = 1, tags = [(1, ''inspiration''), (2, ''life'')], tags_seq = 2,
      quote_tags = [(1, 1), (1, 2)]\<rparr>"

chapter \<open>Proofs\<close>

section \<open>Properties of the retry policy\<close>

lemma get_delay_factor:
  "get_delay rh attempt r =
     min (base_delay rh * exponential_base rh ^ attempt * ((3 + 2 * r) / 4)) (max_delay rh)"
  by (simp add: get_delay_def uniform_def Let_def field_simps)


lemma get_delay_nonneg:
  assumes "0 \<le> base_delay rh" "0 \<le> exponential_base rh" "0 \<le> max_delay rh" "0 \<le> r"
  shows "0 \<le> get_delay rh attempt r"
proof -
  have "0 \<le> base_delay rh * exponential_base rh ^ attempt * ((3 + 2 * r) / 4)"
    using assms by simp
  then show ?thesis using assms(3) by (simp add: get_delay_factor)
qed

text \<open>
  C1. \<open>should_retry\<close> is false once the attempt number has reached \<open>max_retries\<close>,
  whatever the status code. Below \<open>max_retries\<close> it is true for each of 408, 429, 500,
  502, 503 and 504, false for every other code from 400 to 499, and true for every
  remaining code and when no status code is given.
\<close>

theorem should_retry_table:
  "(attempt \<ge> max_retries rh \<longrightarrow> should_retry rh attempt status_code = False)
   \<and> (attempt < max_retries rh \<longrightarrow>
        (c \<in> {408, 429, 500, 502, 503, 504} \<longrightarrow> should_retry rh attempt (Some c) = True)
      \<and> (400 \<le> c \<and> c \<le> 499 \<and> c \<notin> {408, 429, 500, 502, 503, 504}
            \<longrightarrow> should_retry rh attempt (Some c) = False)
      \<and> (\<not> (400 \<le> c \<and> c \<le> 499) \<longrightarrow> should_retry rh attempt (Some c) = True)
      \<and> should_retry rh attempt None = True)"
  by (auto simp: should_retry_def truthy_code_def retryable_codes_def)

theorem should_retry_table_witness:
  "should_retry RetryHandler_default 3 (Some 503) = False
   \<and> should_retry RetryHandler_default 0 (Some 503) = True
   \<and> should_retry RetryHandler_default 0 (Some 404) = False
   \<and> should_retry RetryHandler_default 0 (Some 200) = True
   \<and> should_retry RetryHandler_default 0 None = True"
  using should_retry_table [of RetryHandler_default 3 "Some 503" 0]
    should_retry_table [of RetryHandler_default 0 None 503]
    should_retry_table [of RetryHandler_default 0 None 404]
    should_retry_table [of RetryHandler_default 0 None 200]
  by (simp add: RetryHandler_default_def)



section \<open>Properties of the request throttler\<close>

lemma in_window_filter_le:
  "length (in_window T (filter P ts)) \<le> length (in_window T ts)"
proof -
  have "in_window T (filter P ts) = filter P (in_window T ts)"
    by (auto simp: in_window_def intro: filter_cong)
  then show ?thesis by simp
qed

lemma in_window_le_length: "length (in_window T ts) \<le> length ts"
  by (simp add: in_window_def)

lemma in_window_append: "in_window T (ts @ [c]) = in_window T ts @ (if c > T - 60 \<and> c \<le> T then [c] else [])"
  by (simp add: in_window_def)

lemma in_window_all:
  assumes "\<forall>t \<in> set ts. t > T - 60 \<and> t \<le> T"
  shows "in_window T ts = ts"
  using assms by (simp add: in_window_def)

lemma in_window_drop_oldest:
  assumes "oldest \<le> T - 60"
  shows "length (in_window T (oldest # ts)) \<le> length ts"
  using assms by (simp add: in_window_def)

lemma wait_delay_inv:
  assumes ok: "0 \<le> over2 tk"
    and le: "\<forall>t \<in> set (request_times th). t \<le> clock"
    and old: "\<forall>T. T < clock \<longrightarrow> int (length (in_window T (request_times th))) \<le> N"
    and new: "\<forall>T. clock \<le> T \<longrightarrow> int (length (in_window T (request_times th))) + 1 \<le> N"
    and all: "\<forall>T. int (length (in_window T (request_times th))) \<le> N"
    and n: "requests_per_minute th = N"
  shows "throttle_inv N (snd (wait_delay tk clock th))"
proof (cases "uniform (th_min_delay th) (th_max_delay th) (draw tk)
        * (1 + real_of_int (consecutive_errors th) * 0.5) < 0")
  case True
  then show ?thesis
    using le all n by (simp add: wait_delay_def throttle_inv_def Let_def)
next
  case False
  define d where "d = uniform (th_min_delay th) (th_max_delay th) (draw tk)
        * (1 + real_of_int (consecutive_errors th) * 0.5)"
  define c where "c = clock + d + over2 tk"
  have d0: "0 \<le> d" using False by (simp add: d_def)
  have cc: "clock \<le> c" using d0 ok by (simp add: c_def)
  have res: "snd (wait_delay tk clock th) = (c, th\<lparr>request_times := request_times th @ [c]\<rparr>)"
    using False by (simp add: wait_delay_def Let_def c_def d_def)
  have "int (length (in_window T (request_times th @ [c]))) \<le> N" for T
  proof (cases "c \<le> T")
    case True
    then have "clock \<le> T" using cc by simp
    with new have "int (length (in_window T (request_times th))) + 1 \<le> N" by simp
    then show ?thesis by (simp add: in_window_append)
  next
    case False
    then show ?thesis using all by (simp add: in_window_append)
  qed
  moreover have "\<forall>t \<in> set (request_times th @ [c]). t \<le> c"
    using le cc by auto
  ultimately show ?thesis
    using n by (simp add: res throttle_inv_def)
qed

lemma wait_inv:
  assumes ok: "tick_ok tk" and inv: "throttle_inv N s" and N: "0 \<le> N"
  shows "throttle_inv N (snd (wait tk s))"
proof -
  obtain clock th where s: "s = (clock, th)" by (cases s)
  define now0 where "now0 = clock + gap0 tk"
  define times where "times = filter (\<lambda>t. t > now0 - 60) (request_times th)"
  define th1 where "th1 = th\<lparr>request_times := times\<rparr>"
  have n: "requests_per_minute th = N"
    and le: "\<forall>t \<in> set (request_times th). t \<le> clock"
    and win: "\<And>T. int (length (in_window T (request_times th))) \<le> N"
    using inv by (simp_all add: throttle_inv_def s)
  have g: "0 \<le> gap0 tk" "0 \<le> gap1 tk" "0 \<le> over1 tk" "0 \<le> over2 tk"
    using ok by (simp_all add: tick_ok_def)
  have c0: "clock \<le> now0" using g by (simp add: now0_def)
  have le1: "\<forall>t \<in> set times. t \<le> now0" using le c0 by (auto simp: times_def)
  have win1: "int (length (in_window T times)) \<le> N" for T
    using win [of T] in_window_filter_le [of T "\<lambda>t. t > now0 - 60" "request_times th"]
    by (simp add: times_def)
  have tw: "in_window now0 times = times"
    by (rule in_window_all) (use le1 in \<open>auto simp: times_def\<close>)
  have len: "int (length times) \<le> N" using win1 [of now0] by (simp add: tw)
  have n1: "requests_per_minute th1 = N" and rt1: "request_times th1 = times"
    by (simp_all add: th1_def n)
  have w: "wait tk s =
     (if int (length times) \<ge> N then
        (case times of
           [] \<Rightarrow> (Some IndexError, now0, th1)
         | oldest # _ \<Rightarrow>
             (if 60 - (now0 + gap1 tk - oldest) > 0
              then wait_delay tk (now0 + gap1 tk + (60 - (now0 + gap1 tk - oldest)) + over1 tk) th1
              else wait_delay tk (now0 + gap1 tk) th1))
      else wait_delay tk now0 th1)"
    by (simp add: wait_def s Let_def now0_def times_def th1_def n split: list.split)
  show ?thesis
  proof (cases "int (length times) \<ge> N")
    case False
    then have lt: "int (length times) + 1 \<le> N" by simp
    have "throttle_inv N (snd (wait_delay tk now0 th1))"
    proof (rule wait_delay_inv)
      show "\<forall>T. now0 \<le> T \<longrightarrow> int (length (in_window T (request_times th1))) + 1 \<le> N"
      proof (intro allI impI)
        fix T
        have "length (in_window T times) \<le> length times" by (rule in_window_le_length)
        then show "int (length (in_window T (request_times th1))) + 1 \<le> N"
          using lt by (simp add: rt1)
      qed
    qed (use g le1 win1 n1 in \<open>simp_all add: rt1\<close>)
    then show ?thesis using False by (simp add: w)
  next
    case True
    show ?thesis
    proof (cases times)
      case Nil
      then show ?thesis
        using True n1 by (simp add: w throttle_inv_def th1_def in_window_def N)
    next
      case (Cons oldest rest)
      define clock1 where "clock1 = (if 60 - (now0 + gap1 tk - oldest) > 0
          then now0 + gap1 tk + (60 - (now0 + gap1 tk - oldest)) + over1 tk else now0 + gap1 tk)"
      have c1: "now0 \<le> clock1" and o1: "oldest + 60 \<le> clock1"
        using g by (auto simp: clock1_def)
      have lr: "int (length rest) + 1 \<le> N" using len Cons by simp
      have "throttle_inv N (snd (wait_delay tk clock1 th1))"
      proof (rule wait_delay_inv)
        show "\<forall>t \<in> set (request_times th1). t \<le> clock1"
          using le1 c1 by (auto simp: rt1)
        show "\<forall>T. clock1 \<le> T \<longrightarrow> int (length (in_window T (request_times th1))) + 1 \<le> N"
        proof (intro allI impI)
          fix T assume "clock1 \<le> T"
          then have "oldest \<le> T - 60" using o1 by simp
          then have "length (in_window T (oldest # rest)) \<le> length rest"
            by (rule in_window_drop_oldest)
          then show "int (length (in_window T (request_times th1))) + 1 \<le> N"
            using lr by (simp add: rt1 Cons)
        qed
      qed (use g win1 n1 in \<open>simp_all add: rt1\<close>)
      moreover have "wait tk s = wait_delay tk clock1 th1"
        using True Cons by (auto simp: w clock1_def)
      ultimately show ?thesis by simp
    qed
  qed
qed

lemma step_inv:
  assumes "call_ok c" and "throttle_inv N s" and "0 \<le> N"
  shows "throttle_inv N (step c s)"
proof (cases c)
  case (Wait tk)
  then show ?thesis using assms wait_inv by simp
next
  case RecordSuccess
  then show ?thesis using assms by (cases s) (simp add: throttle_inv_def record_success_def)
next
  case RecordError
  then show ?thesis using assms by (cases s) (simp add: throttle_inv_def record_error_def)
qed

lemma run_inv:
  assumes "list_all call_ok cs" and "throttle_inv N s" and "0 \<le> N"
  shows "throttle_inv N (run cs s)"
  using assms by (induction cs arbitrary: s) (simp_all add: step_inv)

lemma init_inv: "0 \<le> N \<Longrightarrow> throttle_inv N (clock, RequestThrottler_init mn mx N)"
  by (simp add: throttle_inv_def RequestThrottler_init_def in_window_def)

text \<open>What a call of \<open>wait\<close> that returns has recorded.\<close>

lemma wait_delay_records:
  assumes "0 \<le> over2 tk" and "fst (wait_delay tk c th1) = None"
  shows "\<exists>now2. request_times (snd (snd (wait_delay tk c th1))) = request_times th1 @ [now2]
                \<and> c \<le> now2"
proof -
  let ?d = "uniform (th_min_delay th1) (th_max_delay th1) (draw tk)
        * (1 + real_of_int (consecutive_errors th1) * 0.5)"
  have d: "\<not> ?d < 0"
    using assms(2) by (auto simp: wait_delay_def Let_def split: if_splits)
  then have "request_times (snd (snd (wait_delay tk c th1)))
      = request_times th1 @ [c + ?d + over2 tk]"
    by (simp add: wait_delay_def Let_def)
  moreover have "c \<le> c + ?d + over2 tk" using d assms(1) by simp
  ultimately show ?thesis by blast
qed

lemma wait_records:
  assumes ok: "tick_ok tk" and ret: "fst (wait tk (clock, th)) = None"
  shows "\<exists>now2. request_times (snd (snd (wait tk (clock, th))))
                  = filter (\<lambda>t. t > clock + gap0 tk - 60) (request_times th) @ [now2]
           \<and> clock \<le> now2
           \<and> (requests_per_minute th \<le> int (length (filter (\<lambda>t. t > clock + gap0 tk - 60) (request_times th)))
                \<longrightarrow> hd (filter (\<lambda>t. t > clock + gap0 tk - 60) (request_times th)) + 60 \<le> now2)"
proof -
  define now0 where "now0 = clock + gap0 tk"
  define times where "times = filter (\<lambda>t. t > now0 - 60) (request_times th)"
  define th1 where "th1 = th\<lparr>request_times := times\<rparr>"
  have g: "0 \<le> gap0 tk" "0 \<le> gap1 tk" "0 \<le> over1 tk" "0 \<le> over2 tk"
    using ok by (simp_all add: tick_ok_def)
  have rt1: "request_times th1 = times" by (simp add: th1_def)
  have w: "wait tk (clock, th) =
     (if int (length times) \<ge> requests_per_minute th then
        (case times of
           [] \<Rightarrow> (Some IndexError, now0, th1)
         | oldest # _ \<Rightarrow>
             (if 60 - (now0 + gap1 tk - oldest) > 0
              then wait_delay tk (now0 + gap1 tk + (60 - (now0 + gap1 tk - oldest)) + over1 tk) th1
              else wait_delay tk (now0 + gap1 tk) th1))
      else wait_delay tk now0 th1)"
    by (simp add: wait_def Let_def now0_def times_def th1_def split: list.split)
  show ?thesis
  proof (cases "int (length times) \<ge> requests_per_minute th")
    case False
    then have e: "wait tk (clock, th) = wait_delay tk now0 th1" by (simp add: w)
    obtain now2 where "request_times (snd (snd (wait_delay tk now0 th1))) = request_times th1 @ [now2]"
        and "now0 \<le> now2"
      using wait_delay_records [OF g(4), of now0 th1] ret e by auto
    then show ?thesis
      using False g(1) by (auto simp: e rt1 times_def now0_def)
  next
    case True
    show ?thesis
    proof (cases times)
      case Nil
      then show ?thesis using ret True by (simp add: w)
    next
      case (Cons oldest rest)
      define clock1 where "clock1 = (if 60 - (now0 + gap1 tk - oldest) > 0
          then now0 + gap1 tk + (60 - (now0 + gap1 tk - oldest)) + over1 tk else now0 + gap1 tk)"
      have c1: "now0 \<le> clock1" and o1: "oldest + 60 \<le> clock1"
        using g by (auto simp: clock1_def)
      have e: "wait tk (clock, th) = wait_delay tk clock1 th1"
        using True Cons by (auto simp: w clock1_def)
      obtain now2 where n: "request_times (snd (snd (wait_delay tk clock1 th1))) = request_times th1 @ [now2]"
          and "clock1 \<le> now2"
        using wait_delay_records [OF g(4), of clock1 th1] ret e by auto
      then have "clock \<le> now2" and "hd times + 60 \<le> now2"
        using c1 o1 g(1) Cons by (simp_all add: now0_def)
      then show ?thesis
        using n by (auto simp: e rt1 times_def now0_def)
    qed
  qed
qed

text \<open>
  C2. Start from a new throttler with a cap of \<open>N\<close> requests per minute, \<open>N\<close> not
  negative, at any time of the clock, and let a caller make any sequence of calls of
  \<open>wait\<close>, \<open>record_success\<close> and \<open>record_error\<close>, whether \<open>wait\<close> returns or
  raises. The clock does not run backwards and a sleep lasts at least as long as asked.
  Then for every time \<open>T\<close>, at most \<open>N\<close> of the recorded timestamps lie in the 60
  seconds up to \<open>T\<close>. A call of \<open>wait\<close> that returns, in any state, has kept
  exactly the timestamps younger than 60 seconds and appended one new timestamp; when it
  kept \<open>N\<close> or more, the new one is at least 60 seconds after the oldest kept.
\<close>

theorem RequestThrottler_window_cap:
  assumes "0 \<le> N" and "list_all call_ok calls" and "tick_ok tk"
  shows "int (length (in_window T
            (request_times (snd (run calls (clock, RequestThrottler_init mn mx N)))))) \<le> N
       \<and> (fst (wait tk (clock', th)) = None \<longrightarrow>
            (\<exists>now2. request_times (snd (snd (wait tk (clock', th))))
                       = filter (\<lambda>t. t > clock' + gap0 tk - 60) (request_times th) @ [now2]
                \<and> clock' \<le> now2
                \<and> (requests_per_minute th
                       \<le> int (length (filter (\<lambda>t. t > clock' + gap0 tk - 60) (request_times th)))
                     \<longrightarrow> hd (filter (\<lambda>t. t > clock' + gap0 tk - 60) (request_times th)) + 60
                           \<le> now2)))"
proof
  have "throttle_inv N (run calls (clock, RequestThrottler_init mn mx N))"
    using assms(1,2) by (intro run_inv init_inv)
  then show "int (length (in_window T
            (request_times (snd (run calls (clock, RequestThrottler_init mn mx N)))))) \<le> N"
    by (simp add: throttle_inv_def)
next
  show "fst (wait tk (clock', th)) = None \<longrightarrow>
            (\<exists>now2. request_times (snd (snd (wait tk (clock', th))))
                       = filter (\<lambda>t. t > clock' + gap0 tk - 60) (request_times th) @ [now2]
                \<and> clock' \<le> now2
                \<and> (requests_per_minute th
                       \<le> int (length (filter (\<lambda>t. t > clock' + gap0 tk - 60) (request_times th)))
                     \<longrightarrow> hd (filter (\<lambda>t. t > clock' + gap0 tk - 60) (request_times th)) + 60
                           \<le> now2))"
    using wait_records [OF assms(3)] by blast
qed

lemma two_waits:
  "request_times (snd (run [Wait tick0, Wait tick0] (0, RequestThrottler_init 1 1 1))) = [1, 62]"
  by (simp add: wait_def wait_delay_def RequestThrottler_init_def tick0_def uniform_def Let_def)

theorem RequestThrottler_window_cap_witness:
  "request_times (snd (run [Wait tick0, Wait tick0] (0, RequestThrottler_init 1 1 1))) = [1, 62]
   \<and> length (in_window 62
        (request_times (snd (run [Wait tick0, Wait tick0] (0, RequestThrottler_init 1 1 1))))) \<le> 1
   \<and> fst (wait tick0 (1, (RequestThrottler_init 1 1 1)\<lparr>request_times := [1]\<rparr>)) = None
   \<and> (\<exists>now2. request_times (snd (snd (wait tick0 (1, (RequestThrottler_init 1 1 1)\<lparr>request_times := [1]\<rparr>))))
                = [1, now2] \<and> 61 \<le> now2)"
proof -
  have ok: "list_all call_ok [Wait tick0, Wait tick0]" "tick_ok tick0"
    by (simp_all add: tick_ok_def tick0_def)
  have r: "fst (wait tick0 (1, (RequestThrottler_init 1 1 1)\<lparr>request_times := [1]\<rparr>)) = None"
    by (simp add: wait_def wait_delay_def RequestThrottler_init_def tick0_def uniform_def Let_def)
  note t = RequestThrottler_window_cap
    [where N = 1 and calls = "[Wait tick0, Wait tick0]" and tk = tick0 and T = 62 and clock = 0
       and mn = 1 and mx = 1 and clock' = 1
       and th = "(RequestThrottler_init 1 1 1)\<lparr>request_times := [1]\<rparr>", OF _ ok]
  have a: "length (in_window 62
        (request_times (snd (run [Wait tick0, Wait tick0] (0, RequestThrottler_init 1 1 1))))) \<le> 1"
    using t by simp
  have "\<exists>now2. request_times (snd (snd (wait tick0 (1, (RequestThrottler_init 1 1 1)\<lparr>request_times := [1]\<rparr>))))
                = [1, now2] \<and> 61 \<le> now2"
    using t r by (auto simp: tick0_def RequestThrottler_init_def)
  then show ?thesis using a r two_waits by simp
qed

section \<open>Properties of the block classifier\<close>


lemma lower_char_idem: "lower_char (lower_char c) = lower_char c"
  by (auto simp: lower_char_def split: option.splits if_splits)

lemma lower_idem: "lower (lower s) = lower s"
  by (simp add: lower_def lower_char_idem)





section \<open>Properties of the fetch with retries\<close>

declare fetch_attempts.simps [simp del]
declare execute_attempts.simps [simp del]

lemmas world_ops = requests_get_def bump_def backoff_sleep_def random_uniform_def
  random_random_def uniform_def time_sleep_def Let_def

lemma fetch_attempts_blocked_step:
  assumes "attempt < m - 1" and "0 \<le> attempt"
    and "transport ev (n_requests w) url = Inr (Response status b)"
    and "fas_is_blocked status b"
    and "0 \<le> random ev (n_draws w)"
  shows "fetch_attempts ev url m attempt w =
     fetch_attempts ev url m (attempt + 1)
       (w\<lparr>trace := trace w @ [Request url, Sleep (2 ^ nat attempt + random ev (n_draws w))],
          n_requests := Suc (n_requests w),
          n_draws := Suc (n_draws w),
          stats := (stats w)\<lparr>blocks := blocks (stats w) + 1\<rparr>\<rparr>)"
proof -
  have "0 \<le> (2::real) ^ nat attempt + random ev (n_draws w)"
    using assms(5) by (simp add: add_nonneg_nonneg)
  then show ?thesis
    using assms by (subst fetch_attempts.simps, cases w) (simp add: world_ops not_less [symmetric])
qed

lemma fetch_attempts_success_step:
  assumes "attempt < m"
    and "transport ev (n_requests w) url = Inr (Response status body)"
    and "\<not> fas_is_blocked status body"
    and "\<not> (400 \<le> status \<and> status < 600)"
  shows "fetch_attempts ev url m attempt w =
     (Inr (Some body),
      w\<lparr>trace := trace w @ [Request url],
        n_requests := Suc (n_requests w),
        stats := (stats w)\<lparr>successful := successful (stats w) + 1\<rparr>\<rparr>)"
  using assms by (subst fetch_attempts.simps, cases w) (auto simp: world_ops)

lemma fas_is_blocked_503: "fas_is_blocked 503 b"
  by (simp add: fas_is_blocked_def)

lemma fetch_503_503_200:
  assumes t0: "transport ev (n_requests w) url = Inr (Response 503 b0)"
    and t1: "transport ev (Suc (n_requests w)) url = Inr (Response 503 b1)"
    and t2: "transport ev (Suc (Suc (n_requests w))) url = Inr (Response 200 body)"
    and nb: "\<not> fas_is_blocked 200 body"
    and r0: "0 \<le> random ev (n_draws w)" and r1: "0 \<le> random ev (Suc (n_draws w))"
    and mr: "3 \<le> m"
  shows "fetch_with_retry ev url m w =
     (Inr (Some body),
      w\<lparr>trace := trace w @ [Request url, Sleep (1 + random ev (n_draws w)), Request url,
                              Sleep (2 + random ev (Suc (n_draws w))), Request url],
        n_requests := n_requests w + 3,
        n_draws := n_draws w + 2,
        stats := (stats w)\<lparr>requests := requests (stats w) + 1,
                             successful := successful (stats w) + 1,
                             blocks := blocks (stats w) + 2\<rparr>\<rparr>)"
proof -
  let ?w0 = "bump (\<lambda>s. s\<lparr>requests := requests s + 1\<rparr>) w"
  let ?w1 = "?w0\<lparr>trace := trace ?w0 @ [Request url, Sleep (2 ^ nat 0 + random ev (n_draws ?w0))],
          n_requests := Suc (n_requests ?w0),
          n_draws := Suc (n_draws ?w0),
          stats := (stats ?w0)\<lparr>blocks := blocks (stats ?w0) + 1\<rparr>\<rparr>"
  let ?w2 = "?w1\<lparr>trace := trace ?w1 @ [Request url, Sleep (2 ^ nat (0 + 1) + random ev (n_draws ?w1))],
          n_requests := Suc (n_requests ?w1),
          n_draws := Suc (n_draws ?w1),
          stats := (stats ?w1)\<lparr>blocks := blocks (stats ?w1) + 1\<rparr>\<rparr>"
  have "fetch_with_retry ev url m w = fetch_attempts ev url m 0 ?w0"
    by (simp add: fetch_with_retry_def)
  also have "\<dots> = fetch_attempts ev url m (0 + 1) ?w1"
    by (rule fetch_attempts_blocked_step [where status = 503 and b = b0])
      (use t0 r0 mr in \<open>simp_all add: bump_def fas_is_blocked_503\<close>)
  also have "\<dots> = fetch_attempts ev url m (0 + 1 + 1) ?w2"
    by (rule fetch_attempts_blocked_step [where status = 503 and b = b1])
      (use t1 r1 mr in \<open>simp_all add: bump_def fas_is_blocked_503\<close>)
  also have "\<dots> = (Inr (Some body),
      ?w2\<lparr>trace := trace ?w2 @ [Request url],
        n_requests := Suc (n_requests ?w2),
        stats := (stats ?w2)\<lparr>successful := successful (stats ?w2) + 1\<rparr>\<rparr>)"
    by (rule fetch_attempts_success_step [where status = 200])
      (use t2 nb mr in \<open>simp_all add: bump_def\<close>)
  finally show ?thesis
    by (cases w) (simp add: bump_def)
qed

lemma execute_attempts_raise_step:
  assumes "attempt < max_retries rh" and "0 \<le> attempt"
    and "func w = (Inl e, w1)"
    and "0 \<le> get_delay rh (nat attempt) (random ev (n_draws w1))"
  shows "execute_attempts rh ev func attempt le w =
     execute_attempts rh ev func (attempt + 1) (Some e)
       (w1\<lparr>trace := trace w1 @ [Sleep (get_delay rh (nat attempt) (random ev (n_draws w1)))],
           n_draws := Suc (n_draws w1)\<rparr>)"
  using assms by (subst execute_attempts.simps, cases w1) (simp add: world_ops not_less [symmetric])

lemma execute_attempts_return_step:
  assumes "attempt < max_retries rh + 1" and "func w = (Inr v, w1)"
  shows "execute_attempts rh ev func attempt le w = (Inr v, w1)"
  using assms by (subst execute_attempts.simps) simp

lemma do_request_503:
  assumes "transport ev (n_requests w) url = Inr (Response 503 b)"
  shows "do_request ev url w =
    (Inl (HTTPError 503), w\<lparr>trace := trace w @ [Request url], n_requests := Suc (n_requests w)\<rparr>)"
  using assms by (cases w) (simp add: do_request_def requests_get_def)

lemma do_request_200:
  assumes "transport ev (n_requests w) url = Inr (Response 200 body)"
    and "\<not> adv_is_blocked 200 (Some body)"
  shows "do_request ev url w =
    (Inr body, w\<lparr>trace := trace w @ [Request url], n_requests := Suc (n_requests w)\<rparr>)"
  using assms by (cases w) (simp add: do_request_def requests_get_def)

lemma execute_503_503_200:
  assumes t0: "transport ev (n_requests w) url = Inr (Response 503 b0)"
    and t1: "transport ev (Suc (n_requests w)) url = Inr (Response 503 b1)"
    and t2: "transport ev (Suc (Suc (n_requests w))) url = Inr (Response 200 body)"
    and nb: "\<not> adv_is_blocked 200 (Some body)"
    and d0: "0 \<le> get_delay rh 0 (random ev (n_draws w))"
    and d1: "0 \<le> get_delay rh 1 (random ev (Suc (n_draws w)))"
    and mr: "2 \<le> max_retries rh"
  shows "execute_with_retry rh ev (do_request ev url) w =
     (Inr body,
      w\<lparr>trace := trace w @ [Request url, Sleep (get_delay rh 0 (random ev (n_draws w))),
                              Request url, Sleep (get_delay rh 1 (random ev (Suc (n_draws w)))),
                              Request url],
        n_requests := n_requests w + 3,
        n_draws := n_draws w + 2\<rparr>)"
proof -
  let ?a = "w\<lparr>trace := trace w @ [Request url], n_requests := Suc (n_requests w)\<rparr>"
  let ?w1 = "?a\<lparr>trace := trace ?a @ [Sleep (get_delay rh (nat 0) (random ev (n_draws ?a)))],
           n_draws := Suc (n_draws ?a)\<rparr>"
  let ?b = "?w1\<lparr>trace := trace ?w1 @ [Request url], n_requests := Suc (n_requests ?w1)\<rparr>"
  let ?w2 = "?b\<lparr>trace := trace ?b @ [Sleep (get_delay rh (nat (0 + 1)) (random ev (n_draws ?b)))],
           n_draws := Suc (n_draws ?b)\<rparr>"
  let ?c = "?w2\<lparr>trace := trace ?w2 @ [Request url], n_requests := Suc (n_requests ?w2)\<rparr>"
  have "execute_with_retry rh ev (do_request ev url) w
      = execute_attempts rh ev (do_request ev url) 0 None w"
    by (simp add: execute_with_retry_def)
  also have "\<dots> = execute_attempts rh ev (do_request ev url) (0 + 1) (Some (HTTPError 503)) ?w1"
    by (rule execute_attempts_raise_step [where ?w1.0 = ?a and e = "HTTPError 503"])
      (use t0 d0 mr in \<open>simp_all add: do_request_503\<close>)
  also have "\<dots> = execute_attempts rh ev (do_request ev url) (0 + 1 + 1) (Some (HTTPError 503)) ?w2"
    by (rule execute_attempts_raise_step [where ?w1.0 = ?b and e = "HTTPError 503"])
      (use t1 d1 mr in \<open>simp_all add: do_request_503\<close>)
  also have "\<dots> = (Inr body, ?c)"
    by (rule execute_attempts_return_step) (use t2 nb mr in \<open>simp_all add: do_request_200\<close>)
  finally show ?thesis
    by (cases w) simp
qed

lemma hello_page_not_blocked:
  "\<not> fas_is_blocked 200 hello_page" "\<not> adv_is_blocked 200 (Some hello_page)"
proof -
  have l: "lower hello_page = ''<html>hello</html>''"
    by (simp add: hello_page_def lower_def lower_char_def)
  show "\<not> fas_is_blocked 200 hello_page"
    by (simp add: fas_is_blocked_def l block_indicators_def)
  have "hello_page \<noteq> []" by (simp add: hello_page_def)
  then show "\<not> adv_is_blocked 200 (Some hello_page)"
    by (simp add: adv_is_blocked_def l INDICATORS_def)
qed

text \<open>
  C3, as amended. Let the transport answer 503 to the first two requests of a fetch and
  200 with a page that is not blocked to the third, with the draws of \<open>random()\<close> in the
  unit interval. Then \<open>fetch_with_retry\<close>, allowed at least three attempts, returns the
  page after exactly three requests, and it sleeps twice: \<open>2 ** 0 + uniform(0, 1)\<close>
  seconds between the first and the second request and \<open>2 ** 1 + uniform(0, 1)\<close> seconds
  between the second and the third. \<open>execute_with_retry\<close> around \<open>do_request\<close>, with
  \<open>max_retries\<close> at least 2 and a handler whose delays are not negative, returns the page
  after exactly three requests too, sleeping \<open>get_delay(0)\<close> and \<open>get_delay(1)\<close> seconds
  in the same two places. In both, the third request is the last event: nothing is slept
  and nothing is requested after the success.
\<close>

theorem fetch_succeeds_on_third_attempt:
  assumes "transport ev (n_requests w) url = Inr (Response 503 b0)"
    and "transport ev (Suc (n_requests w)) url = Inr (Response 503 b1)"
    and "transport ev (Suc (Suc (n_requests w))) url = Inr (Response 200 body)"
    and "\<not> fas_is_blocked 200 body" and "\<not> adv_is_blocked 200 (Some body)"
    and "0 \<le> random ev (n_draws w)" and "0 \<le> random ev (Suc (n_draws w))"
    and "3 \<le> m" and "2 \<le> max_retries rh"
    and "0 \<le> base_delay rh" and "0 \<le> exponential_base rh" and "0 \<le> max_delay rh"
  shows "fst (fetch_with_retry ev url m w) = Inr (Some body)
     \<and> trace (snd (fetch_with_retry ev url m w)) =
         trace w @ [Request url, Sleep (2 ^ 0 + uniform 0 1 (random ev (n_draws w))),
                    Request url, Sleep (2 ^ 1 + uniform 0 1 (random ev (Suc (n_draws w)))),
                    Request url]
     \<and> fst (execute_with_retry rh ev (do_request ev url) w) = Inr body
     \<and> trace (snd (execute_with_retry rh ev (do_request ev url) w)) =
         trace w @ [Request url, Sleep (get_delay rh 0 (random ev (n_draws w))),
                    Request url, Sleep (get_delay rh 1 (random ev (Suc (n_draws w)))),
                    Request url]"
proof -
  have d0: "0 \<le> get_delay rh 0 (random ev (n_draws w))"
    and d1: "0 \<le> get_delay rh 1 (random ev (Suc (n_draws w)))"
    using assms(6,7,10,11,12) by (simp_all add: get_delay_nonneg)
  have f: "fetch_with_retry ev url m w =
     (Inr (Some body),
      w\<lparr>trace := trace w @ [Request url, Sleep (1 + random ev (n_draws w)), Request url,
                              Sleep (2 + random ev (Suc (n_draws w))), Request url],
        n_requests := n_requests w + 3,
        n_draws := n_draws w + 2,
        stats := (stats w)\<lparr>requests := requests (stats w) + 1,
                             successful := successful (stats w) + 1,
                             blocks := blocks (stats w) + 2\<rparr>\<rparr>)"
    using assms(1,2,3,4,6,7,8) by (rule fetch_503_503_200)
  have e: "execute_with_retry rh ev (do_request ev url) w =
     (Inr body,
      w\<lparr>trace := trace w @ [Request url, Sleep (get_delay rh 0 (random ev (n_draws w))),
                              Request url, Sleep (get_delay rh 1 (random ev (Suc (n_draws w)))),
                              Request url],
        n_requests := n_requests w + 3,
        n_draws := n_draws w + 2\<rparr>)"
    using assms(1,2,3,5) d0 d1 assms(9) by (rule execute_503_503_200)
  show ?thesis
    by (simp add: f e uniform_def)
qed

lemma script_503_503_200_facts:
  "transport script_503_503_200 (n_requests world0) u = Inr (Response 503 [])"
  "transport script_503_503_200 (Suc (n_requests world0)) u = Inr (Response 503 [])"
  "transport script_503_503_200 (Suc (Suc (n_requests world0))) u = Inr (Response 200 hello_page)"
  "0 \<le> random script_503_503_200 (n_draws world0)"
  "0 \<le> random script_503_503_200 (Suc (n_draws world0))"
  "random script_503_503_200 k = 1 / 2"
  "trace world0 = []"
  by (simp_all add: script_503_503_200_def world0_def)

theorem fetch_succeeds_on_third_attempt_witness:
  "fst (fetch_with_retry script_503_503_200 ''u'' 3 world0) = Inr (Some hello_page)
   \<and> trace (snd (fetch_with_retry script_503_503_200 ''u'' 3 world0)) =
       [Request ''u'', Sleep (3 / 2), Request ''u'', Sleep (5 / 2), Request ''u'']
   \<and> fst (execute_with_retry RetryHandler_default script_503_503_200
            (do_request script_503_503_200 ''u'') world0) = Inr hello_page
   \<and> trace (snd (execute_with_retry RetryHandler_default script_503_503_200
            (do_request script_503_503_200 ''u'') world0)) =
       [Request ''u'', Sleep 1, Request ''u'', Sleep 2, Request ''u'']"
proof -
  have c: "(3::int) \<le> 3" "2 \<le> max_retries RetryHandler_default"
    "0 \<le> base_delay RetryHandler_default" "0 \<le> exponential_base RetryHandler_default"
    "0 \<le> max_delay RetryHandler_default"
    by (simp_all add: RetryHandler_default_def)
  have g: "get_delay RetryHandler_default 0 (1 / 2) = 1"
    "get_delay RetryHandler_default (Suc 0) (1 / 2) = 2"
    by (simp_all add: get_delay_factor RetryHandler_default_def)
  show ?thesis
    using fetch_succeeds_on_third_attempt
      [OF script_503_503_200_facts(1,2,3) hello_page_not_blocked script_503_503_200_facts(4,5) c,
       of "''u''"]
    by (simp add: script_503_503_200_facts(6,7) g uniform_def)
qed

text \<open>
  C3 as the claim states it has a single sleep, between the first two requests, and the
  third request following the second at once. On the scripted transport neither
  \<open>fetch_with_retry\<close> nor \<open>execute_with_retry\<close> leaves such a trace, whatever the
  length of that sleep.
\<close>

theorem fetch_single_sleep_counterexample:
  "\<not> (\<exists>d. trace (snd (fetch_with_retry script_503_503_200 ''u'' 3 world0)) =
            [Request ''u'', Sleep d, Request ''u'', Request ''u''])
   \<and> \<not> (\<exists>d. trace (snd (execute_with_retry RetryHandler_default script_503_503_200
                 (do_request script_503_503_200 ''u'') world0)) =
            [Request ''u'', Sleep d, Request ''u'', Request ''u''])"
proof -
  have d: "0 \<le> get_delay RetryHandler_default 0 (random script_503_503_200 (n_draws world0))"
    "0 \<le> get_delay RetryHandler_default 1 (random script_503_503_200 (Suc (n_draws world0)))"
    by (simp_all add: get_delay_nonneg RetryHandler_default_def script_503_503_200_facts)
  have m: "(3::int) \<le> 3" "2 \<le> max_retries RetryHandler_default"
    by (simp_all add: RetryHandler_default_def)
  have "length (trace (snd (fetch_with_retry script_503_503_200 ''u'' 3 world0))) = 5"
    using fetch_503_503_200
      [OF script_503_503_200_facts(1,2,3) hello_page_not_blocked(1) script_503_503_200_facts(4,5) m(1),
       of "''u''"]
    by (simp add: script_503_503_200_facts(7))
  moreover have "length (trace (snd (execute_with_retry RetryHandler_default script_503_503_200
                 (do_request script_503_503_200 ''u'') world0))) = 5"
    using execute_503_503_200
      [OF script_503_503_200_facts(1,2,3) hello_page_not_blocked(2) d m(2), of "''u''"]
    by (simp add: script_503_503_200_facts(7))
  ultimately show ?thesis by auto
qed

section \<open>Properties of the pagination loops\<close>

declare paginate.simps [simp del]
declare adv_paginate.simps [simp del]

lemma paginate_stop:
  assumes "current_url = [] \<or> MAX_PAGES sc < page_number"
  shows "paginate sc w acc current_url page_number = (acc, w)"
  using assms by (subst paginate.simps) auto

lemma paginate_fail:
  assumes "current_url \<noteq> []" "page_number \<le> MAX_PAGES sc"
    and "fetch_page sc w current_url = (None, w1)"
  shows "paginate sc w acc current_url page_number = (acc, w1)"
  using assms by (subst paginate.simps) simp

lemma paginate_last:
  assumes "current_url \<noteq> []" "page_number \<le> MAX_PAGES sc"
    and "fetch_page sc w current_url = (Some html, w1)"
    and "get_next_page sc html = None \<or> get_next_page sc html = Some []"
  shows "paginate sc w acc current_url page_number = (acc @ parse_quotes sc html, w1)"
  using assms by (subst paginate.simps) auto

lemma paginate_next:
  assumes "current_url \<noteq> []" "page_number \<le> MAX_PAGES sc"
    and "fetch_page sc w current_url = (Some html, w1)"
    and "get_next_page sc html = Some next_page" "next_page \<noteq> []"
  shows "paginate sc w acc current_url page_number =
         paginate sc w1 (acc @ parse_quotes sc html) (BASE_URL @ next_page) (page_number + 1)"
  using assms by (subst paginate.simps) simp

lemma paginate_prefix: "prefix acc (fst (paginate sc w acc current_url page_number))"
proof (induction sc w acc current_url page_number rule: paginate.induct)
  case (1 sc w all_quotes current_url page_number)
  show ?case
  proof (cases "current_url \<noteq> [] \<and> page_number \<le> MAX_PAGES sc")
    case False
    then have "current_url = [] \<or> MAX_PAGES sc < page_number" by auto
    then show ?thesis by (simp add: paginate_stop)
  next
    case go: True
    obtain r w1 where f: "fetch_page sc w current_url = (r, w1)" by (cases "fetch_page sc w current_url")
    show ?thesis
    proof (cases r)
      case None
      then show ?thesis using go f by (simp add: paginate_fail)
    next
      case (Some html)
      show ?thesis
      proof (cases "get_next_page sc html = None \<or> get_next_page sc html = Some []")
        case True
        then show ?thesis using go f Some by (simp add: paginate_last)
      next
        case False
        then obtain next_page where n: "get_next_page sc html = Some next_page" "next_page \<noteq> []"
          by auto
        have "prefix (all_quotes @ parse_quotes sc html)
            (fst (paginate sc w1 (all_quotes @ parse_quotes sc html) (BASE_URL @ next_page) (page_number + 1)))"
          using "1.IH" [OF go f [symmetric] Some refl refl n(1) n(2)] by simp
        then have "prefix all_quotes
            (fst (paginate sc w1 (all_quotes @ parse_quotes sc html) (BASE_URL @ next_page) (page_number + 1)))"
          using append_prefixD by blast
        then show ?thesis using go f Some n by (simp add: paginate_next)
      qed
    qed
  qed
qed

lemma adv_paginate_stop:
  assumes "current_url = [] \<or> MAX_PAGES sc < page_number"
  shows "adv_paginate sc w c acc current_url page_number = (acc, c, w)"
  using assms by (subst adv_paginate.simps) auto

lemma adv_paginate_fail:
  assumes "current_url \<noteq> []" "page_number \<le> MAX_PAGES sc"
    and "fetch_page sc w current_url = (None, w1)"
  shows "adv_paginate sc w c acc current_url page_number = (acc, c, w1)"
  using assms by (subst adv_paginate.simps) simp

lemma adv_paginate_blocked:
  assumes "current_url \<noteq> []" "page_number \<le> MAX_PAGES sc"
    and "fetch_page sc w current_url = (Some html, w1)"
    and "adv_is_blocked 200 (Some html)"
  shows "adv_paginate sc w c acc current_url page_number = (acc, c + 1, w1)"
  using assms by (subst adv_paginate.simps) simp

lemma adv_paginate_last:
  assumes "current_url \<noteq> []" "page_number \<le> MAX_PAGES sc"
    and "fetch_page sc w current_url = (Some html, w1)"
    and "\<not> adv_is_blocked 200 (Some html)"
    and "get_next_page sc html = None \<or> get_next_page sc html = Some []"
  shows "adv_paginate sc w c acc current_url page_number = (acc @ parse_quotes sc html, c, w1)"
  using assms by (subst adv_paginate.simps) auto

lemma adv_paginate_next:
  assumes "current_url \<noteq> []" "page_number \<le> MAX_PAGES sc"
    and "fetch_page sc w current_url = (Some html, w1)"
    and "\<not> adv_is_blocked 200 (Some html)"
    and "get_next_page sc html = Some next_page" "next_page \<noteq> []"
  shows "adv_paginate sc w c acc current_url page_number =
         adv_paginate sc w1 c (acc @ parse_quotes sc html) (BASE_URL @ next_page) (page_number + 1)"
  using assms by (subst adv_paginate.simps) simp

lemma BASE_URL_nonempty: "BASE_URL @ next_page \<noteq> []"
  by (simp add: BASE_URL_def)

text \<open>Every pass of a loop has one of four or five outcomes.\<close>

lemma paginate_cases:
  obtains
    (stop) "current_url = [] \<or> MAX_PAGES sc < page_number"
  | (fail) w1 where "current_url \<noteq> []" "page_number \<le> MAX_PAGES sc"
      "fetch_page sc w current_url = (None, w1)"
  | (last) html w1 where "current_url \<noteq> []" "page_number \<le> MAX_PAGES sc"
      "fetch_page sc w current_url = (Some html, w1)"
      "get_next_page sc html = None \<or> get_next_page sc html = Some []"
  | (more) html w1 next_page where "current_url \<noteq> []" "page_number \<le> MAX_PAGES sc"
      "fetch_page sc w current_url = (Some html, w1)"
      "get_next_page sc html = Some next_page" "next_page \<noteq> []"
proof -
  obtain r w1 where f: "fetch_page sc w current_url = (r, w1)"
    by (cases "fetch_page sc w current_url")
  show ?thesis
  proof (cases "current_url = [] \<or> MAX_PAGES sc < page_number")
    case True
    then show ?thesis by (rule stop)
  next
    case go: False
    show ?thesis
    proof (cases r)
      case None
      then show ?thesis using go f fail by auto
    next
      case (Some html)
      then show ?thesis
        using go f last [of html w1] more [of html w1] by (cases "get_next_page sc html") auto
    qed
  qed
qed

lemma paginate_fetch_bound:
  assumes "fetch_page sc = scripted script"
  shows "length (snd (paginate sc fetched acc url page))
         \<le> length fetched + nat (MAX_PAGES sc + 1 - page)"
proof (induction "nat (MAX_PAGES sc + 1 - page)" arbitrary: fetched acc url page)
  case 0
  then have "MAX_PAGES sc < page" by simp
  then show ?case by (simp add: paginate_stop)
next
  case (Suc k)
  then have k: "k = nat (MAX_PAGES sc + 1 - (page + 1))" by simp
  show ?case
  proof (cases rule: paginate_cases [where current_url = url and sc = sc and page_number = page and w = fetched])
    case stop
    then show ?thesis by (simp add: paginate_stop)
  next
    case (fail w1)
    then show ?thesis using assms Suc(2) by (auto simp: paginate_fail scripted_def)
  next
    case (last html w1)
    then show ?thesis
      using assms Suc(2) paginate_last [OF last, of acc] by (auto simp: scripted_def)
  next
    case (more html w1 next_page)
    have "length (snd (paginate sc w1 (acc @ parse_quotes sc html) (BASE_URL @ next_page) (page + 1)))
        \<le> length w1 + k"
      using Suc(1) [OF k] k by simp
    moreover have "length w1 = Suc (length fetched)"
      using more(3) assms by (auto simp: scripted_def)
    ultimately show ?thesis
      using Suc(2) by (simp add: paginate_next [OF more])
  qed
qed

lemma paginate_fetch_exact:
  assumes s: "fetch_page sc = scripted script"
    and a: "\<forall>k u. \<exists>h n. script k u = Some h \<and> get_next_page sc h = Some n \<and> n \<noteq> []"
    and u: "url \<noteq> []"
  shows "length (snd (paginate sc fetched acc url page))
         = length fetched + nat (MAX_PAGES sc + 1 - page)"
  using u
proof (induction "nat (MAX_PAGES sc + 1 - page)" arbitrary: fetched acc url page)
  case 0
  then have "MAX_PAGES sc < page" by simp
  then show ?case by (simp add: paginate_stop)
next
  case (Suc k)
  then have k: "k = nat (MAX_PAGES sc + 1 - (page + 1))" and p: "page \<le> MAX_PAGES sc" by simp_all
  obtain h n where hn: "script (length fetched) url = Some h" "get_next_page sc h = Some n" "n \<noteq> []"
    using a by blast
  have f: "fetch_page sc fetched url = (Some h, fetched @ [url])"
    using hn s by (simp add: scripted_def)
  have "paginate sc fetched acc url page
      = paginate sc (fetched @ [url]) (acc @ parse_quotes sc h) (BASE_URL @ n) (page + 1)"
    using Suc(3) p f hn(2,3) by (rule paginate_next)
  moreover have "length (snd (paginate sc (fetched @ [url]) (acc @ parse_quotes sc h) (BASE_URL @ n) (page + 1)))
      = length (fetched @ [url]) + k"
    using Suc(1) [OF k BASE_URL_nonempty] k by simp
  ultimately show ?case using Suc(2) by simp
qed

lemma paginate_three_pages:
  assumes s: "fetch_page sc = scripted script"
    and p1: "script 0 BASE_URL = Some h1" "get_next_page sc h1 = Some n1" "n1 \<noteq> []"
    and p2: "script 1 (BASE_URL @ n1) = Some h2" "get_next_page sc h2 = Some n2" "n2 \<noteq> []"
    and p3: "script 2 (BASE_URL @ n2) = Some h3"
            "get_next_page sc h3 = None \<or> get_next_page sc h3 = Some []"
    and m: "3 \<le> MAX_PAGES sc"
  shows "paginate sc [] [] BASE_URL 1 =
         (parse_quotes sc h1 @ parse_quotes sc h2 @ parse_quotes sc h3,
          [BASE_URL, BASE_URL @ n1, BASE_URL @ n2])"
proof -
  have b: "BASE_URL \<noteq> []" by (simp add: BASE_URL_def)
  have "paginate sc [] [] BASE_URL 1
      = paginate sc [BASE_URL] ([] @ parse_quotes sc h1) (BASE_URL @ n1) (1 + 1)"
    by (rule paginate_next [where html = h1]) (use s p1 m b in \<open>simp_all add: scripted_def\<close>)
  also have "\<dots> = paginate sc [BASE_URL, BASE_URL @ n1] (([] @ parse_quotes sc h1) @ parse_quotes sc h2)
       (BASE_URL @ n2) (1 + 1 + 1)"
    by (rule paginate_next [where html = h2])
      (use s p2 m b in \<open>simp_all add: scripted_def\<close>)
  also have "\<dots> = ((([] @ parse_quotes sc h1) @ parse_quotes sc h2) @ parse_quotes sc h3,
       [BASE_URL, BASE_URL @ n1, BASE_URL @ n2])"
    by (rule paginate_last [where html = h3])
      (use s p3 m b in \<open>simp_all add: scripted_def numeral_2_eq_2\<close>)
  finally show ?thesis by simp
qed

lemma adv_paginate_cases:
  obtains
    (stop) "current_url = [] \<or> MAX_PAGES sc < page_number"
  | (fail) w1 where "current_url \<noteq> []" "page_number \<le> MAX_PAGES sc"
      "fetch_page sc w current_url = (None, w1)"
  | (blocked) html w1 where "current_url \<noteq> []" "page_number \<le> MAX_PAGES sc"
      "fetch_page sc w current_url = (Some html, w1)" "adv_is_blocked 200 (Some html)"
  | (last) html w1 where "current_url \<noteq> []" "page_number \<le> MAX_PAGES sc"
      "fetch_page sc w current_url = (Some html, w1)" "\<not> adv_is_blocked 200 (Some html)"
      "get_next_page sc html = None \<or> get_next_page sc html = Some []"
  | (more) html w1 next_page where "current_url \<noteq> []" "page_number \<le> MAX_PAGES sc"
      "fetch_page sc w current_url = (Some html, w1)" "\<not> adv_is_blocked 200 (Some html)"
      "get_next_page sc html = Some next_page" "next_page \<noteq> []"
proof -
  obtain r w1 where f: "fetch_page sc w current_url = (r, w1)"
    by (cases "fetch_page sc w current_url")
  show ?thesis
  proof (cases "current_url = [] \<or> MAX_PAGES sc < page_number")
    case True
    then show ?thesis by (rule stop)
  next
    case go: False
    show ?thesis
    proof (cases r)
      case None
      then show ?thesis using go f fail by auto
    next
      case (Some html)
      show ?thesis
      proof (cases "adv_is_blocked 200 (Some html)")
        case True
        then show ?thesis using go f Some blocked [of html w1] by auto
      next
        case False
        then show ?thesis
          using go f Some last [of html w1] more [of html w1]
          by (cases "get_next_page sc html") auto
      qed
    qed
  qed
qed

lemma adv_paginate_prefix: "prefix acc (fst (adv_paginate sc w c acc current_url page_number))"
proof (induction "nat (MAX_PAGES sc + 1 - page_number)" arbitrary: w acc current_url page_number)
  case 0
  then have "MAX_PAGES sc < page_number" by simp
  then show ?case by (simp add: adv_paginate_stop)
next
  case (Suc k)
  then have k: "k = nat (MAX_PAGES sc + 1 - (page_number + 1))" by simp
  show ?case
  proof (cases rule: adv_paginate_cases
      [where current_url = current_url and sc = sc and page_number = page_number and w = w])
    case stop
    then show ?thesis by (simp add: adv_paginate_stop)
  next
    case (fail w1)
    then show ?thesis by (simp add: adv_paginate_fail)
  next
    case (blocked html w1)
    then show ?thesis by (simp add: adv_paginate_blocked)
  next
    case (last html w1)
    then show ?thesis by (simp add: adv_paginate_last [OF last])
  next
    case (more html w1 next_page)
    have "prefix (acc @ parse_quotes sc html)
       (fst (adv_paginate sc w1 c (acc @ parse_quotes sc html) (BASE_URL @ next_page) (page_number + 1)))"
      by (rule Suc(1) [OF k])
    then have "prefix acc
       (fst (adv_paginate sc w1 c (acc @ parse_quotes sc html) (BASE_URL @ next_page) (page_number + 1)))"
      using append_prefixD by blast
    then show ?thesis by (simp add: adv_paginate_next [OF more])
  qed
qed

lemma adv_paginate_fetch_bound:
  assumes "fetch_page sc = scripted script"
  shows "length (snd (snd (adv_paginate sc fetched c acc url page)))
         \<le> length fetched + nat (MAX_PAGES sc + 1 - page)"
proof (induction "nat (MAX_PAGES sc + 1 - page)" arbitrary: fetched acc url page)
  case 0
  then have "MAX_PAGES sc < page" by simp
  then show ?case by (simp add: adv_paginate_stop)
next
  case (Suc k)
  then have k: "k = nat (MAX_PAGES sc + 1 - (page + 1))" by simp
  show ?case
  proof (cases rule: adv_paginate_cases
      [where current_url = url and sc = sc and page_number = page and w = fetched])
    case stop
    then show ?thesis by (simp add: adv_paginate_stop)
  next
    case (fail w1)
    then show ?thesis using assms Suc(2) by (auto simp: adv_paginate_fail scripted_def)
  next
    case (blocked html w1)
    then show ?thesis using assms Suc(2) by (auto simp: adv_paginate_blocked scripted_def)
  next
    case (last html w1)
    then show ?thesis
      using assms Suc(2) adv_paginate_last [OF last, of c acc] by (auto simp: scripted_def)
  next
    case (more html w1 next_page)
    have "length (snd (snd (adv_paginate sc w1 c (acc @ parse_quotes sc html) (BASE_URL @ next_page) (page + 1))))
        \<le> length w1 + k"
      using Suc(1) [OF k] k by simp
    moreover have "length w1 = Suc (length fetched)"
      using more(3) assms by (auto simp: scripted_def)
    ultimately show ?thesis
      using Suc(2) by (simp add: adv_paginate_next [OF more])
  qed
qed

lemma adv_paginate_fetch_exact:
  assumes s: "fetch_page sc = scripted script"
    and a: "\<forall>k u. \<exists>h n. script k u = Some h \<and> \<not> adv_is_blocked 200 (Some h)
              \<and> get_next_page sc h = Some n \<and> n \<noteq> []"
    and u: "url \<noteq> []"
  shows "length (snd (snd (adv_paginate sc fetched c acc url page)))
         = length fetched + nat (MAX_PAGES sc + 1 - page)"
  using u
proof (induction "nat (MAX_PAGES sc + 1 - page)" arbitrary: fetched acc url page)
  case 0
  then have "MAX_PAGES sc < page" by simp
  then show ?case by (simp add: adv_paginate_stop)
next
  case (Suc k)
  then have k: "k = nat (MAX_PAGES sc + 1 - (page + 1))" and p: "page \<le> MAX_PAGES sc" by simp_all
  obtain h n where hn: "script (length fetched) url = Some h" "\<not> adv_is_blocked 200 (Some h)"
      "get_next_page sc h = Some n" "n \<noteq> []"
    using a by blast
  have f: "fetch_page sc fetched url = (Some h, fetched @ [url])"
    using hn s by (simp add: scripted_def)
  have "adv_paginate sc fetched c acc url page
      = adv_paginate sc (fetched @ [url]) c (acc @ parse_quotes sc h) (BASE_URL @ n) (page + 1)"
    using Suc(3) p f hn(2,3,4) by (rule adv_paginate_next)
  moreover have "length (snd (snd (adv_paginate sc (fetched @ [url]) c (acc @ parse_quotes sc h) (BASE_URL @ n) (page + 1))))
      = length (fetched @ [url]) + k"
    using Suc(1) [OF k BASE_URL_nonempty] k by simp
  ultimately show ?case using Suc(2) by simp
qed

lemma adv_paginate_three_pages:
  assumes s: "fetch_page sc = scripted script"
    and p1: "script 0 BASE_URL = Some h1" "get_next_page sc h1 = Some n1" "n1 \<noteq> []"
    and p2: "script 1 (BASE_URL @ n1) = Some h2" "get_next_page sc h2 = Some n2" "n2 \<noteq> []"
    and p3: "script 2 (BASE_URL @ n2) = Some h3"
            "get_next_page sc h3 = None \<or> get_next_page sc h3 = Some []"
    and nb: "\<not> adv_is_blocked 200 (Some h1)" "\<not> adv_is_blocked 200 (Some h2)"
            "\<not> adv_is_blocked 200 (Some h3)"
    and m: "3 \<le> MAX_PAGES sc"
  shows "adv_paginate sc [] c [] BASE_URL 1 =
         (parse_quotes sc h1 @ parse_quotes sc h2 @ parse_quotes sc h3, c,
          [BASE_URL, BASE_URL @ n1, BASE_URL @ n2])"
proof -
  have b: "BASE_URL \<noteq> []" by (simp add: BASE_URL_def)
  have "adv_paginate sc [] c [] BASE_URL 1
      = adv_paginate sc [BASE_URL] c ([] @ parse_quotes sc h1) (BASE_URL @ n1) (1 + 1)"
    by (rule adv_paginate_next [where html = h1]) (use s p1 nb m b in \<open>simp_all add: scripted_def\<close>)
  also have "\<dots> = adv_paginate sc [BASE_URL, BASE_URL @ n1] c
       (([] @ parse_quotes sc h1) @ parse_quotes sc h2) (BASE_URL @ n2) (1 + 1 + 1)"
    by (rule adv_paginate_next [where html = h2])
      (use s p2 nb m b in \<open>simp_all add: scripted_def\<close>)
  also have "\<dots> = ((([] @ parse_quotes sc h1) @ parse_quotes sc h2) @ parse_quotes sc h3, c,
       [BASE_URL, BASE_URL @ n1, BASE_URL @ n2])"
    by (rule adv_paginate_last [where html = h3])
      (use s p3 nb m b in \<open>simp_all add: scripted_def numeral_2_eq_2\<close>)
  finally show ?thesis by simp
qed

lemma main_eq:
  "fst (main sc w) = fst (paginate sc w [] BASE_URL 1)"
  "snd (snd (main sc w)) = snd (paginate sc w [] BASE_URL 1)"
  "fst (snd (main sc w)) = (if fst (main sc w) = [] then None else Some (fst (main sc w)))"
  by (simp_all add: main_def split_beta)

lemma adv_main_eq:
  "fst (adv_main sc w) = fst (adv_paginate sc w 0 [] BASE_URL 1)"
  "snd (snd (snd (adv_main sc w))) = snd (snd (adv_paginate sc w 0 [] BASE_URL 1))"
  "fst (snd (adv_main sc w)) = (if fst (adv_main sc w) = [] then None else Some (fst (adv_main sc w)))"
  by (simp_all add: adv_main_def split_beta)

text \<open>
  C6. Run either \<open>main\<close> against a scripted fetcher, which records the URLs it is asked
  for. Whatever the script and the HTML readers do, no more than \<open>MAX_PAGES\<close> pages are
  fetched. When every fetch succeeds and every page has a next link (and, for
  \<open>advanced_scraper\<close>, no page looks blocked), exactly \<open>MAX_PAGES\<close> pages are fetched:
  the loop stops at the cap although a next link exists, after 2 pages when the cap is 2.
  When the first three fetches succeed with three items on each page, the first two pages
  link on and the third does not, and the cap is at least 3, the run returns exactly 9 items
  and has fetched exactly the three pages.
\<close>

theorem pagination_stops_at_cap:
  assumes "fetch_page sc = scripted script"
  shows "length (snd (snd (main sc []))) \<le> nat (MAX_PAGES sc)
     \<and> length (snd (snd (snd (adv_main sc [])))) \<le> nat (MAX_PAGES sc)
     \<and> ((\<forall>k u. \<exists>h n. script k u = Some h \<and> get_next_page sc h = Some n \<and> n \<noteq> [])
          \<longrightarrow> length (snd (snd (main sc []))) = nat (MAX_PAGES sc))
     \<and> ((\<forall>k u. \<exists>h n. script k u = Some h \<and> \<not> adv_is_blocked 200 (Some h)
                     \<and> get_next_page sc h = Some n \<and> n \<noteq> [])
          \<longrightarrow> length (snd (snd (snd (adv_main sc [])))) = nat (MAX_PAGES sc))
     \<and> (script 0 BASE_URL = Some h1 \<and> get_next_page sc h1 = Some n1 \<and> n1 \<noteq> []
          \<and> script 1 (BASE_URL @ n1) = Some h2 \<and> get_next_page sc h2 = Some n2 \<and> n2 \<noteq> []
          \<and> script 2 (BASE_URL @ n2) = Some h3
          \<and> (get_next_page sc h3 = None \<or> get_next_page sc h3 = Some [])
          \<and> length (parse_quotes sc h1) = 3 \<and> length (parse_quotes sc h2) = 3
          \<and> length (parse_quotes sc h3) = 3 \<and> 3 \<le> MAX_PAGES sc
          \<longrightarrow> length (fst (main sc [])) = 9
              \<and> snd (snd (main sc [])) = [BASE_URL, BASE_URL @ n1, BASE_URL @ n2]
              \<and> (\<not> adv_is_blocked 200 (Some h1) \<and> \<not> adv_is_blocked 200 (Some h2)
                   \<and> \<not> adv_is_blocked 200 (Some h3)
                  \<longrightarrow> length (fst (adv_main sc [])) = 9
                      \<and> snd (snd (snd (adv_main sc [])))
                          = [BASE_URL, BASE_URL @ n1, BASE_URL @ n2]))"
proof (intro conjI impI)
  show "length (snd (snd (main sc []))) \<le> nat (MAX_PAGES sc)"
    using paginate_fetch_bound [OF assms, of "[]" "[]" BASE_URL 1] by (simp add: main_eq)
  show "length (snd (snd (snd (adv_main sc [])))) \<le> nat (MAX_PAGES sc)"
    using adv_paginate_fetch_bound [OF assms, of "[]" 0 "[]" BASE_URL 1] by (simp add: adv_main_eq)
next
  assume "\<forall>k u. \<exists>h n. script k u = Some h \<and> get_next_page sc h = Some n \<and> n \<noteq> []"
  then show "length (snd (snd (main sc []))) = nat (MAX_PAGES sc)"
    using paginate_fetch_exact [OF assms, of BASE_URL "[]" "[]" 1]
    by (simp add: main_eq BASE_URL_def)
next
  assume "\<forall>k u. \<exists>h n. script k u = Some h \<and> \<not> adv_is_blocked 200 (Some h)
                     \<and> get_next_page sc h = Some n \<and> n \<noteq> []"
  then show "length (snd (snd (snd (adv_main sc [])))) = nat (MAX_PAGES sc)"
    using adv_paginate_fetch_exact [OF assms, of BASE_URL "[]" 0 "[]" 1]
    by (simp add: adv_main_eq BASE_URL_def)
next
  assume h: "script 0 BASE_URL = Some h1 \<and> get_next_page sc h1 = Some n1 \<and> n1 \<noteq> []
          \<and> script 1 (BASE_URL @ n1) = Some h2 \<and> get_next_page sc h2 = Some n2 \<and> n2 \<noteq> []
          \<and> script 2 (BASE_URL @ n2) = Some h3
          \<and> (get_next_page sc h3 = None \<or> get_next_page sc h3 = Some [])
          \<and> length (parse_quotes sc h1) = 3 \<and> length (parse_quotes sc h2) = 3
          \<and> length (parse_quotes sc h3) = 3 \<and> 3 \<le> MAX_PAGES sc"
  then have p: "paginate sc [] [] BASE_URL 1 =
         (parse_quotes sc h1 @ parse_quotes sc h2 @ parse_quotes sc h3,
          [BASE_URL, BASE_URL @ n1, BASE_URL @ n2])"
    by (intro paginate_three_pages [OF assms]) simp_all
  show "length (fst (main sc [])) = 9"
    using h by (simp add: main_eq p)
  show "snd (snd (main sc [])) = [BASE_URL, BASE_URL @ n1, BASE_URL @ n2]"
    by (simp add: main_eq p)
  assume "\<not> adv_is_blocked 200 (Some h1) \<and> \<not> adv_is_blocked 200 (Some h2)
                   \<and> \<not> adv_is_blocked 200 (Some h3)"
  with h have a: "adv_paginate sc [] 0 [] BASE_URL 1 =
         (parse_quotes sc h1 @ parse_quotes sc h2 @ parse_quotes sc h3, 0,
          [BASE_URL, BASE_URL @ n1, BASE_URL @ n2])"
    by (intro adv_paginate_three_pages [OF assms]) simp_all
  show "length (fst (adv_main sc [])) = 9"
    using h by (simp add: adv_main_eq a)
  show "snd (snd (snd (adv_main sc []))) = [BASE_URL, BASE_URL @ n1, BASE_URL @ n2]"
    by (simp add: adv_main_eq a)
qed

lemma page_not_blocked:
  "\<not> adv_is_blocked 200 (Some ''page'')" "\<not> adv_is_blocked 200 (Some ''page1'')"
  "\<not> adv_is_blocked 200 (Some ''page2'')" "\<not> adv_is_blocked 200 (Some ''page3'')"
  by (simp_all add: adv_is_blocked_def INDICATORS_def lower_def lower_char_def)

theorem pagination_stops_at_cap_witness:
  "length (snd (snd (main endless_site []))) = 2
   \<and> length (snd (snd (snd (adv_main endless_site [])))) = 2
   \<and> length (fst (main three_page_site [])) = 9
   \<and> snd (snd (main three_page_site []))
       = [BASE_URL, BASE_URL @ ''/page/2/'', BASE_URL @ ''/page/3/'']
   \<and> length (fst (adv_main three_page_site [])) = 9
   \<and> length (snd (snd (snd (adv_main three_page_site [])))) = 3"
proof -
  have e: "fetch_page endless_site = scripted (\<lambda>k u. Some ''page'')"
    by (simp add: endless_site_def)
  have e1: "\<forall>k u. \<exists>h n. (\<lambda>k u. Some ''page'') k u = Some h
      \<and> get_next_page endless_site h = Some n \<and> n \<noteq> []"
    by (simp add: endless_site_def)
  have e2: "\<forall>k u. \<exists>h n. (\<lambda>k u. Some ''page'') k u = Some h \<and> \<not> adv_is_blocked 200 (Some h)
      \<and> get_next_page endless_site h = Some n \<and> n \<noteq> []"
    using page_not_blocked(1) by (simp add: endless_site_def)
  have "length (snd (snd (main endless_site []))) = 2
      \<and> length (snd (snd (snd (adv_main endless_site [])))) = 2"
    using pagination_stops_at_cap [OF e] e1 e2 by (simp add: endless_site_def)
  moreover
  have t: "fetch_page three_page_site = scripted three_page_script"
    by (simp add: three_page_site_def)
  have t1: "three_page_script 0 BASE_URL = Some ''page1''
      \<and> get_next_page three_page_site ''page1'' = Some ''/page/2/'' \<and> ''/page/2/'' \<noteq> []
      \<and> three_page_script 1 (BASE_URL @ ''/page/2/'') = Some ''page2''
      \<and> get_next_page three_page_site ''page2'' = Some ''/page/3/'' \<and> ''/page/3/'' \<noteq> []
      \<and> three_page_script 2 (BASE_URL @ ''/page/3/'') = Some ''page3''
      \<and> (get_next_page three_page_site ''page3'' = None
           \<or> get_next_page three_page_site ''page3'' = Some [])
      \<and> length (parse_quotes three_page_site ''page1'') = 3
      \<and> length (parse_quotes three_page_site ''page2'') = 3
      \<and> length (parse_quotes three_page_site ''page3'') = 3 \<and> 3 \<le> MAX_PAGES three_page_site"
    by (simp add: three_page_site_def three_page_script_def three_page_next_def page_items_def)
  have t2: "\<not> adv_is_blocked 200 (Some ''page1'') \<and> \<not> adv_is_blocked 200 (Some ''page2'')
      \<and> \<not> adv_is_blocked 200 (Some ''page3'')"
    using page_not_blocked by simp
  have "length (fst (main three_page_site [])) = 9
   \<and> snd (snd (main three_page_site []))
       = [BASE_URL, BASE_URL @ ''/page/2/'', BASE_URL @ ''/page/3/'']
   \<and> length (fst (adv_main three_page_site [])) = 9
   \<and> length (snd (snd (snd (adv_main three_page_site [])))) = 3"
    using pagination_stops_at_cap [OF t, where ?h1.0 = "''page1''" and ?n1.0 = "''/page/2/''"
        and ?h2.0 = "''page2''" and ?n2.0 = "''/page/3/''" and ?h3.0 = "''page3''"] t1 t2
    by simp
  ultimately show ?thesis by simp
qed

text \<open>
  C7. In both loops the quotes collected so far are never dropped: whatever the fetcher and
  the HTML readers do from any point of the loop on, the result starts with the quotes
  collected up to that point. When a fetch fails, the loop ends there and returns exactly
  the quotes collected from the earlier pages. \<open>main\<close> hands every quote the loop returns
  to the save, and saves nothing only when there is none.
\<close>

theorem pagination_keeps_quotes_on_failure:
  "prefix acc (fst (paginate sc w acc url page))
   \<and> prefix acc (fst (adv_paginate sc w c acc url page))
   \<and> (url \<noteq> [] \<and> page \<le> MAX_PAGES sc \<and> fetch_page sc w url = (None, w1)
        \<longrightarrow> paginate sc w acc url page = (acc, w1)
            \<and> adv_paginate sc w c acc url page = (acc, c, w1))
   \<and> fst (snd (main sc w)) = (if fst (main sc w) = [] then None else Some (fst (main sc w)))
   \<and> fst (snd (adv_main sc w))
       = (if fst (adv_main sc w) = [] then None else Some (fst (adv_main sc w)))"
  by (simp add: paginate_prefix adv_paginate_prefix paginate_fail adv_paginate_fail
      main_eq(3) adv_main_eq(3))

lemma failing_site_run:
  "main failing_site [] =
     (page_items ''page'' @ page_items ''page'', Some (page_items ''page'' @ page_items ''page''),
      [BASE_URL, BASE_URL @ ''/next'', BASE_URL @ ''/next''])"
proof -
  have b: "BASE_URL \<noteq> []" by (simp add: BASE_URL_def)
  have "paginate failing_site [] [] BASE_URL 1
      = paginate failing_site [BASE_URL] ([] @ page_items ''page'') (BASE_URL @ ''/next'') (1 + 1)"
    using paginate_next [where sc = failing_site and w = "[]" and current_url = BASE_URL
        and page_number = 1 and html = "''page''" and ?w1.0 = "[BASE_URL]"
        and next_page = "''/next''" and acc = "[]"] b
    by (simp add: failing_site_def failing_script_def scripted_def)
  also have "\<dots> = paginate failing_site [BASE_URL, BASE_URL @ ''/next'']
       (([] @ page_items ''page'') @ page_items ''page'') (BASE_URL @ ''/next'') (1 + 1 + 1)"
    using paginate_next [where sc = failing_site and w = "[BASE_URL]"
        and current_url = "BASE_URL @ ''/next''"
        and page_number = "1 + 1" and html = "''page''" and ?w1.0 = "[BASE_URL, BASE_URL @ ''/next'']"
        and next_page = "''/next''" and acc = "[] @ page_items ''page''"] b
    by (simp add: failing_site_def failing_script_def scripted_def)
  also have "\<dots> = (([] @ page_items ''page'') @ page_items ''page'',
       [BASE_URL, BASE_URL @ ''/next'', BASE_URL @ ''/next''])"
    using paginate_fail [where sc = failing_site and w = "[BASE_URL, BASE_URL @ ''/next'']"
        and current_url = "BASE_URL @ ''/next''" and page_number = "1 + 1 + 1"
        and ?w1.0 = "[BASE_URL, BASE_URL @ ''/next'', BASE_URL @ ''/next'']"
        and acc = "([] @ page_items ''page'') @ page_items ''page''"] b
    by (simp add: failing_site_def failing_script_def scripted_def)
  finally show ?thesis
    by (simp add: main_def page_items_def)
qed

theorem pagination_keeps_quotes_on_failure_witness:
  "fetch_page failing_site [BASE_URL, BASE_URL @ ''/next''] (BASE_URL @ ''/next'')
     = (None, [BASE_URL, BASE_URL @ ''/next'', BASE_URL @ ''/next''])
   \<and> paginate failing_site [BASE_URL, BASE_URL @ ''/next'']
        (page_items ''page'' @ page_items ''page'') (BASE_URL @ ''/next'') 3
     = (page_items ''page'' @ page_items ''page'',
        [BASE_URL, BASE_URL @ ''/next'', BASE_URL @ ''/next''])
   \<and> fst (main failing_site []) = page_items ''page'' @ page_items ''page''
   \<and> length (fst (main failing_site [])) = 6
   \<and> fst (snd (main failing_site [])) = Some (fst (main failing_site []))"
proof -
  have f: "fetch_page failing_site [BASE_URL, BASE_URL @ ''/next''] (BASE_URL @ ''/next'')
     = (None, [BASE_URL, BASE_URL @ ''/next'', BASE_URL @ ''/next''])"
    by (simp add: failing_site_def failing_script_def scripted_def)
  have h: "BASE_URL @ ''/next'' \<noteq> [] \<and> 3 \<le> MAX_PAGES failing_site"
    by (simp add: failing_site_def)
  note t = pagination_keeps_quotes_on_failure
    [where sc = failing_site and w = "[BASE_URL, BASE_URL @ ''/next'']"
       and acc = "page_items ''page'' @ page_items ''page''" and url = "BASE_URL @ ''/next''"
       and page = 3 and ?w1.0 = "[BASE_URL, BASE_URL @ ''/next'', BASE_URL @ ''/next'']"]
  have p: "paginate failing_site [BASE_URL, BASE_URL @ ''/next'']
        (page_items ''page'' @ page_items ''page'') (BASE_URL @ ''/next'') 3
     = (page_items ''page'' @ page_items ''page'',
        [BASE_URL, BASE_URL @ ''/next'', BASE_URL @ ''/next''])"
    using t f h by blast
  have s: "fst (snd (main failing_site [])) = Some (fst (main failing_site []))"
    using pagination_keeps_quotes_on_failure [where sc = failing_site and w = "[]"]
    by (simp add: failing_site_run page_items_def)
  show ?thesis
    using f p s by (simp add: failing_site_run page_items_def)
qed

section \<open>Properties of the proxy rotator\<close>

declare str_nat.simps [simp del]
























section \<open>Properties of the quote database\<close>

lemma select_quote_present:
  "select_quote (Some t) d \<noteq> None \<longleftrightarrow> t \<in> quote_text ` set (quotes d)"
proof -
  have "filter (\<lambda>row. quote_text row = t) (quotes d) \<noteq> [] \<longleftrightarrow> t \<in> quote_text ` set (quotes d)"
    by (auto simp: filter_empty_conv)
  then show ?thesis
    by (auto simp: select_quote_def split: list.splits)
qed

lemma add_tags_quotes: "quotes (snd (add_tags qid ts d)) = quotes d"
proof (induction ts arbitrary: d)
  case Nil
  then show ?case by simp
next
  case (Cons tag_name rest)
  show ?case
    by (auto simp: Cons insert_or_ignore_quote_tag_def insert_tag_def Let_def
        split: option.splits sum.splits if_splits)
qed

lemma insert_quote_try_committed:
  assumes "insert_quote_try txt author tag_list url c = (res, c1)"
  shows "(case res of Inr (Some qid) \<Rightarrow> committed c1 = working c1 | _ \<Rightarrow> committed c1 = committed c)"
  using assms
  by (auto simp: insert_quote_try_def commit_def
      split: option.splits sum.splits prod.splits)

lemma insert_quote_duplicate:
  assumes "t \<in> quote_text ` set (quotes d)"
  shows "insert_quote (Some t) author tag_list url d = (Inr None, d)"
proof -
  obtain i where "select_quote (Some t) d = Some i"
    using assms select_quote_present [of t d] by auto
  then show ?thesis
    by (simp add: insert_quote_def insert_quote_try_def get_connection_def close_def)
qed

lemma insert_quote_added:
  assumes "insert_quote (Some t) author tag_list url d = (Inr (Some qid), d1)"
  shows "t \<notin> quote_text ` set (quotes d)
         \<and> (\<exists>aid. quotes d1 = quotes d @
               [\<lparr>quote_id = qid, quote_text = t, author_id = aid, source_url = url\<rparr>])"
proof -
  have new: "t \<notin> quote_text ` set (quotes d)"
  proof
    assume "t \<in> quote_text ` set (quotes d)"
    then have "insert_quote (Some t) author tag_list url d = (Inr None, d)"
      by (rule insert_quote_duplicate)
    with assms show False by simp
  qed
  then have s: "select_quote (Some t) d = None"
    using select_quote_present [of t d] by simp
  obtain aid d0 where a: "(case select_by_name author (authors d) of
                   Some aid \<Rightarrow> Inr (aid, d)
                 | None \<Rightarrow> insert_author author d) = Inr (aid, d0)"
     and q0: "quotes d0 = quotes d" and sq: "quotes_seq d0 = quotes_seq d"
    using assms s
    by (auto simp: insert_quote_def insert_quote_try_def get_connection_def insert_author_def Let_def
        split: option.splits sum.splits prod.splits if_splits)
  obtain d2 where i: "insert_quote_row (Some t) aid url d0 = Inr (qid, d2)"
     and r: "add_tags qid tag_list d2 = (None, d1)"
    using assms s a
    by (auto simp: insert_quote_def insert_quote_try_def get_connection_def close_def commit_def
        split: option.splits sum.splits prod.splits if_splits)
  have "quotes d2 = quotes d @ [\<lparr>quote_id = qid, quote_text = t, author_id = aid, source_url = url\<rparr>]"
    using i q0 by (auto simp: insert_quote_row_def Let_def split: if_splits)
  moreover have "quotes d1 = quotes d2"
    using add_tags_quotes [of qid tag_list d2] r by simp
  ultimately show ?thesis using new by auto
qed

lemma insert_quote_twice:
  assumes "insert_quote (Some t) author tag_list url d = (Inr (Some qid), d1)"
  shows "length (filter (\<lambda>row. quote_text row = t) (quotes d1)) = 1
         \<and> insert_quote (Some t) author' tag_list' url' d1 = (Inr None, d1)"
proof -
  from insert_quote_added [OF assms] obtain aid where
    new: "t \<notin> quote_text ` set (quotes d)" and
    q: "quotes d1 = quotes d @ [\<lparr>quote_id = qid, quote_text = t, author_id = aid, source_url = url\<rparr>]"
    by blast
  have "filter (\<lambda>row. quote_text row = t) (quotes d) = []"
    using new by (auto simp: filter_empty_conv)
  then have "length (filter (\<lambda>row. quote_text row = t) (quotes d1)) = 1"
    by (simp add: q)
  moreover have "t \<in> quote_text ` set (quotes d1)"
    by (simp add: q)
  ultimately show ?thesis
    by (simp add: insert_quote_duplicate)
qed

lemma insert_quote_id_positive:
  assumes "insert_quote txt author tag_list url d = (Inr (Some qid), d1)"
  shows "qid \<noteq> 0"
  using assms
  by (auto simp: insert_quote_def insert_quote_try_def insert_quote_row_def next_rowid_def Let_def
      split: option.splits sum.splits prod.splits if_splits)

lemma batch_duplicate_skipped:
  assumes "item_text quote = Some t" and "t \<in> quote_text ` set (quotes d)"
  shows "insert_quotes_loop (quote # rest) url cnt d =
         insert_quotes_loop rest url (cnt\<lparr>skipped := skipped cnt + 1\<rparr>) d"
  using assms by (simp add: insert_quote_duplicate)

lemma batch_twice:
  assumes "item_text quote = Some t"
    and "insert_quote (Some t) (item_author quote)
           (case item_tags quote of None \<Rightarrow> [] | Some ts \<Rightarrow> ts) url d = (Inr (Some qid), d1)"
  shows "insert_quotes_batch [quote, quote] url d = (Inr \<lparr>added = 1, skipped = 1\<rparr>, d1)"
proof -
  have p: "qid \<noteq> 0" using assms(2) by (rule insert_quote_id_positive)
  have dup: "insert_quote (Some t) (item_author quote)
           (case item_tags quote of None \<Rightarrow> [] | Some ts \<Rightarrow> ts) url d1 = (Inr None, d1)"
    using insert_quote_twice [OF assms(2)] by simp
  show ?thesis
    using assms p dup by (simp add: insert_quotes_batch_def)
qed

text \<open>
  C9. When the quotes table already holds a row with the text, \<open>insert_quote\<close> returns
  \<open>None\<close> and leaves the database as it was, and \<open>insert_quotes_batch\<close> counts the
  item as skipped and goes on from the same database. When \<open>insert_quote\<close> has added a
  text, the table holds exactly one row with it and a second insert of the text, with
  whatever author and tags, returns \<open>None\<close> and adds nothing; a batch of the same item
  twice that adds it reports one added and one skipped.
\<close>

theorem insert_quote_deduplicates:
  "(t \<in> quote_text ` set (quotes d)
      \<longrightarrow> insert_quote (Some t) author tag_list url d = (Inr None, d)
          \<and> (item_text quote = Some t
               \<longrightarrow> insert_quotes_loop (quote # rest) url cnt d
                   = insert_quotes_loop rest url (cnt\<lparr>skipped := skipped cnt + 1\<rparr>) d))
   \<and> (insert_quote (Some t) author tag_list url d = (Inr (Some qid), d1)
      \<longrightarrow> length (filter (\<lambda>row. quote_text row = t) (quotes d1)) = 1
          \<and> insert_quote (Some t) author' tag_list' url' d1 = (Inr None, d1))
   \<and> (item_text quote = Some t
        \<and> insert_quote (Some t) (item_author quote)
             (case item_tags quote of None \<Rightarrow> [] | Some ts \<Rightarrow> ts) url d = (Inr (Some qid), d1)
      \<longrightarrow> insert_quotes_batch [quote, quote] url d = (Inr \<lparr>added = 1, skipped = 1\<rparr>, d1))"
proof (intro conjI impI)
  assume p: "t \<in> quote_text ` set (quotes d)"
  show "insert_quote (Some t) author tag_list url d = (Inr None, d)"
    using p by (rule insert_quote_duplicate)
  assume "item_text quote = Some t"
  then show "insert_quotes_loop (quote # rest) url cnt d
      = insert_quotes_loop rest url (cnt\<lparr>skipped := skipped cnt + 1\<rparr>) d"
    using p by (rule batch_duplicate_skipped)
next
  assume a: "insert_quote (Some t) author tag_list url d = (Inr (Some qid), d1)"
  show "length (filter (\<lambda>row. quote_text row = t) (quotes d1)) = 1"
    using insert_quote_twice [OF a] by (rule conjunct1)
  show "insert_quote (Some t) author' tag_list' url' d1 = (Inr None, d1)"
    using insert_quote_twice [OF a] by (rule conjunct2)
next
  assume "item_text quote = Some t
        \<and> insert_quote (Some t) (item_author quote)
             (case item_tags quote of None \<Rightarrow> [] | Some ts \<Rightarrow> ts) url d = (Inr (Some qid), d1)"
  then show "insert_quotes_batch [quote, quote] url d = (Inr \<lparr>added = 1, skipped = 1\<rparr>, d1)"
    using batch_twice by blast
qed

lemma first_insert:
  "insert_quote (Some ''Stay hungry, stay foolish.'') (Some ''Steve Jobs'')
     [Some ''inspiration'', Some ''life''] None db_empty = (Inr (Some 1), db_one_quote)"
  by code_simp

theorem insert_quote_deduplicates_witness:
  "insert_quote (Some ''Stay hungry, stay foolish.'') (Some ''Steve Jobs'')
     [Some ''inspiration'', Some ''life''] None db_empty = (Inr (Some 1), db_one_quote)
   \<and> length (filter (\<lambda>row. quote_text row = ''Stay hungry, stay foolish.'')
        (quotes db_one_quote)) = 1
   \<and> insert_quote (Some ''Stay hungry, stay foolish.'') (Some ''Someone Else'') [] None
        db_one_quote = (Inr None, db_one_quote)
   \<and> insert_quotes_batch [stay_hungry, stay_hungry] None db_empty
      = (Inr \<lparr>added = 1, skipped = 1\<rparr>, db_one_quote)"
proof -
  let ?t = "''Stay hungry, stay foolish.''"
  have q: "item_text stay_hungry = Some ?t
        \<and> insert_quote (Some ?t) (item_author stay_hungry)
             (case item_tags stay_hungry of None \<Rightarrow> [] | Some ts \<Rightarrow> ts) None db_empty
           = (Inr (Some 1), db_one_quote)"
    by (simp add: stay_hungry_def first_insert)
  note t = insert_quote_deduplicates
    [where t = ?t and d = db_empty and author = "Some ''Steve Jobs''"
       and tag_list = "[Some ''inspiration'', Some ''life'']" and url = None and qid = 1
       and ?d1.0 = db_one_quote and author' = "Some ''Someone Else''" and tag_list' = "[]"
       and url' = None and quote = stay_hungry]
  have a: "length (filter (\<lambda>row. quote_text row = ?t) (quotes db_one_quote)) = 1
          \<and> insert_quote (Some ?t) (Some ''Someone Else'') [] None db_one_quote
              = (Inr None, db_one_quote)"
    using t [THEN conjunct2, THEN conjunct1, rule_format, OF first_insert] .
  have b: "insert_quotes_batch [stay_hungry, stay_hungry] None db_empty
      = (Inr \<lparr>added = 1, skipped = 1\<rparr>, db_one_quote)"
    using t [THEN conjunct2, THEN conjunct2, rule_format, OF q] .
  show ?thesis
    by (intro conjI first_insert a [THEN conjunct1] a [THEN conjunct2] b)
qed

text \<open>
  C10. When \<open>insert_quote\<close> raises, the database file is as it was before the call,
  whatever the statements of the call had done before the one that failed.
\<close>

theorem insert_quote_atomic:
  assumes a: "insert_quote txt author tag_list url d = (Inl e, d1)"
  shows "d1 = d"
proof -
  obtain res c1 where t: "insert_quote_try txt author tag_list url (get_connection d) = (res, c1)"
    by (cases "insert_quote_try txt author tag_list url (get_connection d)")
  with a have r: "res = Inl e" and d1: "d1 = close (rollback c1)"
    by (auto simp: insert_quote_def split: sum.splits)
  have "committed c1 = committed (get_connection d)"
    using insert_quote_try_committed [OF t] r by simp
  then show ?thesis
    by (simp add: d1 close_def rollback_def get_connection_def)
qed

lemma failed_insert:
  "insert_quote_try None (Some ''Ann'') [] None (get_connection db_empty) =
     (Inl (IntegrityError ''NOT NULL constraint failed: quotes.text''),
      \<lparr>committed = db_empty, working = db_empty\<lparr>authors := [(1, ''Ann'')], authors_seq := 1\<rparr>\<rparr>)"
  by (simp add: insert_quote_try_def get_connection_def db_empty_def select_quote_def
      select_by_name_def insert_author_def insert_quote_row_def next_rowid_def Let_def)

theorem insert_quote_atomic_witness:
  "authors (working (snd (insert_quote_try None (Some ''Ann'') [] None (get_connection db_empty))))
     = [(1, ''Ann'')]
   \<and> insert_quote None (Some ''Ann'') [] None db_empty
     = (Inl (IntegrityError ''NOT NULL constraint failed: quotes.text''), db_empty)"
proof -
  obtain d1 where r: "insert_quote None (Some ''Ann'') [] None db_empty
     = (Inl (IntegrityError ''NOT NULL constraint failed: quotes.text''), d1)"
    by (simp add: insert_quote_def failed_insert)
  have "d1 = db_empty"
    using insert_quote_atomic [OF r] .
  moreover have "authors (working (snd (insert_quote_try None (Some ''Ann'') [] None
      (get_connection db_empty)))) = [(1, ''Ann'')]"
    by (simp add: failed_insert)
  ultimately show ?thesis
    using r by simp
qed

end
